theory Spec2Isabelle
  imports Complex_Main "HOL-Library.Word" "HOL-Library.Log_Nat"
begin

section \<open>The RPC bridge of axis-graphql (package rpc)\<close>

text \<open>
  The Go types used by the bridge:
  \<^item> \<open>*big.Int\<close>, \<open>hexutil.Big\<close>: unbounded integers, \<open>int\<close>;
  \<open>uint64\<close>, \<open>int32\<close>: \<open>64 word\<close>, \<open>32 word\<close> (arithmetic wraps, \<open>sint\<close> reads an \<open>int32\<close>);
  \<^item> \<open>common.Address\<close>: 20 bytes, \<open>160 word\<close>; \<open>[]byte\<close>: a list of \<open>8 word\<close>;
  \<^item> a pointer is an \<open>option\<close> (\<open>None\<close> is \<open>nil\<close>); dereferencing \<open>nil\<close> panics;
  \<^item> an \<open>error\<close> value is its message; a Go result pair \<open>(v, err)\<close> stays a pair, with
    \<open>err = None\<close> for a \<open>nil\<close> error.
  Calls of the logger write a line and return nothing; they are left out, except where
  building their arguments dereferences a pointer.
\<close>

type_synonym error = string
type_synonym address = "160 word"
type_synonym bytes = "8 word list"

datatype 'a go = Panic | Return 'a

subsection \<open>defi\_settings.go: the decimals correction\<close>

text \<open>\<open>big.Int.Uint64\<close>: the low 64 bits of the absolute value.\<close>

definition Uint64 :: "int \<Rightarrow> 64 word" where
  "Uint64 x = word_of_int \<bar>x\<bar>"

text \<open>
  \<open>pullDefiConfigValue\<close> takes the result pair of the contract getter \<open>cf(nil)\<close>.
\<close>

definition pullDefiConfigValue :: "int option \<times> error option \<Rightarrow> int \<times> error option" where
  "pullDefiConfigValue cf =
     (case cf of
        (val, Some err) \<Rightarrow> (0, Some err)
      | (None, None) \<Rightarrow> (0, Some ''defi config value not available'')
      | (Some val, None) \<Rightarrow> (val, None))"

text \<open>
  The loop \<open>for value > 1 { value /= 10; dec++ }\<close> of \<open>pullDefiDecimalCorrection\<close>, on
  the \<open>uint64\<close> \<open>value\<close> and the \<open>int32\<close> \<open>dec\<close>. Its termination is proved: the
  value decreases.
\<close>

function decimalLoop :: "64 word \<Rightarrow> 32 word \<Rightarrow> 32 word" where
  "decimalLoop v dec = (if 1 < v then decimalLoop (v div 10) (dec + 1) else dec)"
  by pat_completeness auto
termination
proof (relation "measure (\<lambda>(v, dec). unat v)")
  show "wf (measure (\<lambda>(v :: 64 word, dec :: 32 word). unat v))" by simp
next
  fix v :: "64 word" and dec :: "32 word"
  assume "1 < v"
  then have "1 < unat v" by (simp add: word_less_nat_alt)
  then have "unat v div 10 < unat v" by simp
  then show "((v div 10, dec + 1), (v, dec)) \<in> measure (\<lambda>(v, dec). unat v)"
    by (simp add: unat_div)
qed

definition pullDefiDecimalCorrection ::
    "int option \<times> error option \<Rightarrow> 32 word \<times> error option" where
  "pullDefiDecimalCorrection fMintFeeDigitsCorrection =
     (case pullDefiConfigValue fMintFeeDigitsCorrection of
        (val, Some err) \<Rightarrow> (0, Some err)
      | (val, None) \<Rightarrow> (decimalLoop (Uint64 val) 0, None))"

text \<open>
  The specification's wording of the result, as a function of its own: the number of
  times \<open>v\<close> can be integer-divided by 10 before the result is at most 1.
\<close>

fun divisions_by_ten :: "nat \<Rightarrow> nat" where
  "divisions_by_ten v = (if v \<le> 1 then 0 else Suc (divisions_by_ten (v div 10)))"

subsection \<open>The staking calls: StakeUnlockPenalty and PendingRewards\<close>

text \<open>
  What the two functions use of the bridge: the ABI packer of the SFC contract, the
  node's \<open>CallContract\<close>, the configured SFC address and the contract binding's
  \<open>PendingRewards\<close>. Each is a function from the call's arguments to its Go result pair.
\<close>

record CallMsg =
  From :: address
  To :: address
  Data :: bytes

record AxisBridge =
  sfcAbiPack :: "string \<Rightarrow> int option \<Rightarrow> int option \<Rightarrow> bytes \<times> error option"
  ethCallContract :: "CallMsg \<Rightarrow> bytes \<times> error option"
  sfcConfigSFCContract :: address
  sfcPendingRewards :: "address \<Rightarrow> int option \<Rightarrow> int option \<times> error option"

text \<open>\<open>big.Int.SetBytes\<close>: the bytes read as a big-endian unsigned integer.\<close>

definition SetBytes :: "bytes \<Rightarrow> int" where
  "SetBytes data = foldl (\<lambda>acc b. acc * 256 + uint b) 0 data"

text \<open>
  The argument list of the three \<open>Errorf\<close> calls of \<open>StakeUnlockPenalty\<close> evaluates
  \<open>amount.Uint64()\<close>, \<open>addr.String()\<close> and \<open>valID.Uint64()\<close>: it panics on a \<open>nil\<close>
  pointer.
\<close>

definition logArgs :: "address option \<Rightarrow> int option \<Rightarrow> int option \<Rightarrow> bool" where
  "logArgs addr valID amount = (amount \<noteq> None \<and> addr \<noteq> None \<and> valID \<noteq> None)"

definition StakeUnlockPenalty ::
    "AxisBridge \<Rightarrow> address option \<Rightarrow> int option \<Rightarrow> int option \<Rightarrow> (int option \<times> error option) go" where
  "StakeUnlockPenalty axis addr valID amount =
     (let (cd, err) = sfcAbiPack axis ''unlockStake'' valID amount in
      if err \<noteq> None then
        (if logArgs addr valID amount then Return (None, err) else Panic)
      else
        (case addr of
           None \<Rightarrow> Panic
         | Some a \<Rightarrow>
            (let (data, err) =
                   ethCallContract axis \<lparr>From = a, To = sfcConfigSFCContract axis, Data = cd\<rparr> in
             if err \<noteq> None then
               (if logArgs addr valID amount then Return (None, err) else Panic)
             else if length data \<noteq> 32 then
               (if logArgs addr valID amount then Return (None, err) else Panic)
             else Return (Some (SetBytes data), None))))"

record types_PendingRewards =
  Address :: address
  Staker :: int
  Amount :: int

definition PendingRewards ::
    "AxisBridge \<Rightarrow> address option \<Rightarrow> int option \<Rightarrow> (types_PendingRewards \<times> error option) go" where
  "PendingRewards axis addr valID =
     (case addr of
        None \<Rightarrow> Panic
      | Some a \<Rightarrow>
         (case valID of
            None \<Rightarrow> Panic
          | Some v \<Rightarrow>
             (let pr = \<lparr>Address = a, Staker = v, Amount = 0\<rparr>;
                  (amo, err) = sfcPendingRewards axis a valID in
              if err \<noteq> None then Return (pr, None)
              else
                (case amo of
                   None \<Rightarrow> Panic
                 | Some am \<Rightarrow> Return (pr\<lparr>Amount := am\<rparr>, None)))))"

subsection \<open>The block observer: observeBlocks and blockSubscription\<close>

text \<open>
  The worker is sequential; what it sees of the rest of the process is the result of each
  \<open>EthSubscribe\<close> call and the readiness of the channels it selects on. Time is counted in
  nanoseconds from the start of the worker, as \<open>time.Duration\<close> does.
\<close>

definition axisHeadsObserverSubscribeTick :: nat where
  "axisHeadsObserverSubscribeTick = 30 * 1000000000"

text \<open>
  A subscription returned by \<open>EthSubscribe\<close>: \<open>sid\<close> is the number of the call that
  allocated it (each successful call returns a new object), \<open>errAt\<close> the instant at which
  its \<open>Err()\<close> channel receives its single value (\<open>None\<close>: the stream never breaks). The
  value delivered is a non-nil error, as the interface promises.
\<close>

record subscription =
  sid :: nat
  errAt :: "nat option"

text \<open>
  One call of \<open>axis.rpc.EthSubscribe\<close>: it never returns, or it returns after some time with
  an error, or with a subscription (and the instant at which that one will fail).
\<close>

datatype subscribe_result = Hangs | Fails nat error | Succeeds nat "nat option"

text \<open>
  Modelled from the spec: the channel \<open>axis.sigClose\<close> is a field of \<open>AxisBridge\<close>, declared
  outside these files. The specification has it one-shot and broadcast-style (once fired it
  never resets), so it is ready for receiving from the instant \<open>sigCloseAt\<close> on
  (\<open>None\<close>: no shutdown is ever signalled).

  \<open>ethSubscribe i\<close> is the result of the \<open>i\<close>-th call of \<open>EthSubscribe\<close>. \<open>pick j\<close> is the
  pseudo-random choice of the \<open>j\<close>-th \<open>select\<close>, consulted only when both of its cases are
  ready (\<open>True\<close>: the first case, \<open>sigClose\<close>).
\<close>

record environment =
  sigCloseAt :: "nat option"
  ethSubscribe :: "nat \<Rightarrow> subscribe_result"
  pick :: "nat \<Rightarrow> bool"

text \<open>What the worker does that is visible outside it, each stamped with its time.\<close>

datatype event =
    CallEthSubscribe
  | LogCritical
  | LogError
  | LogNotice
  | NewTimer nat
  | RecvSigClose
  | RecvTimer
  | RecvErr nat
  | Unsubscribe nat
  | WgDone

text \<open>
  The state of the worker goroutine: the local variable \<open>sub\<close>, the clock, the number of
  \<open>EthSubscribe\<close> calls and of \<open>select\<close> statements executed so far, and the events so far.
\<close>

record worker =
  sub :: "subscription option"
  now :: nat
  calls :: nat
  selects :: nat
  trace :: "(nat \<times> event) list"

definition emit :: "event \<Rightarrow> worker \<Rightarrow> worker" where
  "emit ev w = w\<lparr>trace := trace w @ [(now w, ev)]\<rparr>"

text \<open>
  Go's \<open>select\<close> over two receive cases, started at time \<open>t\<close>; \<open>a\<close> and \<open>b\<close> are the
  instants from which the first and the second channel are ready. It blocks until one case
  can proceed and takes it; when both can proceed at that instant, one is chosen
  pseudo-randomly (\<open>pk\<close>); when neither ever can, it blocks forever (\<open>None\<close>).
\<close>

datatype chosen = First | Second

definition select2 ::
    "bool \<Rightarrow> nat \<Rightarrow> nat option \<Rightarrow> nat option \<Rightarrow> (nat \<times> chosen) option" where
  "select2 pk t a b =
     (case (a, b) of
        (None, None) \<Rightarrow> None
      | (Some ta, None) \<Rightarrow> Some (max t ta, First)
      | (None, Some tb) \<Rightarrow> Some (max t tb, Second)
      | (Some ta, Some tb) \<Rightarrow>
          (if max t ta < max t tb then Some (max t ta, First)
           else if max t tb < max t ta then Some (max t tb, Second)
           else Some (max t ta, if pk then First else Second)))"

text \<open>
  The two \<open>select\<close> statements of \<open>observeBlocks\<close>: the first case is always
  \<open><-axis.sigClose\<close>, the second \<open><-tm.C\<close> or \<open><-sub.Err()\<close>, ready from \<open>other\<close> on.
\<close>

definition selectOn :: "environment \<Rightarrow> worker \<Rightarrow> nat option \<Rightarrow> (chosen \<times> worker) option" where
  "selectOn e w other =
     (case select2 (pick e (selects w)) (now w) (sigCloseAt e) other of
        None \<Rightarrow> None
      | Some (t, c) \<Rightarrow> Some (c, w\<lparr>now := t, selects := Suc (selects w)\<rparr>))"

text \<open>
  \<open>blockSubscription\<close>: \<open>Inl\<close> when \<open>EthSubscribe\<close> never returns (the state is the one at
  the call), otherwise \<open>Inr\<close> of the returned handle (\<open>None\<close> is \<open>nil\<close>) and the state.
\<close>

definition blockSubscription ::
    "environment \<Rightarrow> worker \<Rightarrow> worker + (subscription option \<times> worker)" where
  "blockSubscription e w =
     (let w1 = (emit CallEthSubscribe w)\<lparr>calls := Suc (calls w)\<rparr> in
      case ethSubscribe e (calls w) of
        Hangs \<Rightarrow> Inl w1
      | Fails d err \<Rightarrow> Inr (None, emit LogCritical (w1\<lparr>now := now w1 + d\<rparr>))
      | Succeeds d failure \<Rightarrow>
          Inr (Some \<lparr>sid = calls w, errAt = failure\<rparr>, w1\<lparr>now := now w1 + d\<rparr>))"

text \<open>The deferred function of \<open>observeBlocks\<close>.\<close>

definition deferred :: "worker \<Rightarrow> worker" where
  "deferred w =
     (let w1 = (case sub w of Some s \<Rightarrow> emit (Unsubscribe (sid s)) w | None \<Rightarrow> w) in
      emit WgDone (emit LogNotice w1))"

text \<open>
  How a run of the worker stands: it returned (\<open>Exited\<close>, after the deferred function), it
  waits forever in a \<open>select\<close> or in \<open>EthSubscribe\<close> (\<open>Blocked\<close>), or it is at the head of
  the loop with iterations still to run (\<open>Running\<close>).
\<close>

datatype outcome = Exited worker | Blocked worker | Running worker

text \<open>The assignment \<open>sub = axis.blockSubscription()\<close>.\<close>

definition assignSub :: "worker + (subscription option \<times> worker) \<Rightarrow> outcome" where
  "assignSub r = (case r of Inl w \<Rightarrow> Blocked w | Inr (s, w) \<Rightarrow> Running (w\<lparr>sub := s\<rparr>))"

text \<open>One execution of the body of the \<open>for\<close> loop.\<close>

definition iteration :: "environment \<Rightarrow> worker \<Rightarrow> outcome" where
  "iteration e w =
     (case sub w of
        None \<Rightarrow>
          (let w1 = emit (NewTimer axisHeadsObserverSubscribeTick) w in
           case selectOn e w1 (Some (now w1 + axisHeadsObserverSubscribeTick)) of
             None \<Rightarrow> Blocked w1
           | Some (First, w2) \<Rightarrow> Exited (deferred (emit RecvSigClose w2))
           | Some (Second, w2) \<Rightarrow> assignSub (blockSubscription e (emit RecvTimer w2)))
      | Some s \<Rightarrow>
          (case selectOn e w (errAt s) of
             None \<Rightarrow> Blocked w
           | Some (First, w2) \<Rightarrow> Exited (deferred (emit RecvSigClose w2))
           | Some (Second, w2) \<Rightarrow>
               Running ((emit LogError (emit (RecvErr (sid s)) w2))\<lparr>sub := None\<rparr>)))"

text \<open>
  The loop \<open>for { ... }\<close> has no exit condition and may run forever: \<open>loop e n\<close> runs at
  most \<open>n\<close> iterations of it and answers \<open>Running\<close> when they are used up.
\<close>

fun loop :: "environment \<Rightarrow> nat \<Rightarrow> worker \<Rightarrow> outcome" where
  "loop e 0 w = Running w"
| "loop e (Suc n) w =
     (case iteration e w of
        Running w' \<Rightarrow> loop e n w'
      | out \<Rightarrow> out)"

definition start :: worker where
  "start = \<lparr>sub = None, now = 0, calls = 0, selects = 0, trace = []\<rparr>"

definition observeBlocks :: "environment \<Rightarrow> nat \<Rightarrow> outcome" where
  "observeBlocks e n =
     (case assignSub (blockSubscription e start) of
        Running w \<Rightarrow> loop e n w
      | out \<Rightarrow> out)"

subsection \<open>Reading a run\<close>

definition state_of :: "outcome \<Rightarrow> worker" where
  "state_of out = (case out of Exited w \<Rightarrow> w | Blocked w \<Rightarrow> w | Running w \<Rightarrow> w)"

definition continue :: "environment \<Rightarrow> nat \<Rightarrow> outcome \<Rightarrow> outcome" where
  "continue e n out = (case out of Running w \<Rightarrow> loop e n w | out' \<Rightarrow> out')"

text \<open>How often an event occurs in a trace.\<close>

definition occurrences :: "event \<Rightarrow> (nat \<times> event) list \<Rightarrow> nat" where
  "occurrences ev tr = length (filter (\<lambda>p. snd p = ev) tr)"

text \<open>
  The instants of the \<open>EthSubscribe\<close> calls; the timers created (instant and duration);
  the handles \<open>Unsubscribe\<close> was called on; the handles whose failure was received.
\<close>

definition attempts :: "(nat \<times> event) list \<Rightarrow> nat list" where
  "attempts tr = map fst (filter (\<lambda>p. snd p = CallEthSubscribe) tr)"

definition timers :: "(nat \<times> event) list \<Rightarrow> (nat \<times> nat) list" where
  "timers tr = concat (map (\<lambda>(t, ev). case ev of NewTimer d \<Rightarrow> [(t, d)] | _ \<Rightarrow> []) tr)"

definition teardowns :: "(nat \<times> event) list \<Rightarrow> nat list" where
  "teardowns tr = concat (map (\<lambda>(t, ev). case ev of Unsubscribe h \<Rightarrow> [h] | _ \<Rightarrow> []) tr)"

definition failed :: "(nat \<times> event) list \<Rightarrow> nat list" where
  "failed tr = concat (map (\<lambda>(t, ev). case ev of RecvErr h \<Rightarrow> [h] | _ \<Rightarrow> []) tr)"



text \<open>
  Two invariants of the worker at the head of the loop. \<open>quiet\<close>: nothing of the deferred
  function has happened yet, and a handle held in \<open>sub\<close> is the one of the latest call and
  has not failed. \<open>paced\<close>: the retry discipline, with every timer created so far used up.
\<close>

definition quiet :: "worker \<Rightarrow> bool" where
  "quiet w =
     (teardowns (trace w) = [] \<and> occurrences WgDone (trace w) = 0
      \<and> occurrences RecvSigClose (trace w) = 0
      \<and> (\<forall>h \<in> set (failed (trace w)). h < calls w)
      \<and> (case sub w of None \<Rightarrow> True
          | Some s \<Rightarrow> Suc (sid s) = calls w \<and> sid s \<notin> set (failed (trace w))))"


subsection \<open>A run of failing calls, in closed form\<close>

text \<open>
  \<open>failing e k\<close>: the first \<open>k\<close> calls of \<open>EthSubscribe\<close> return an error.
  \<open>open_until e t\<close>: no shutdown is signalled up to and including the instant \<open>t\<close>.
\<close>

definition isFails :: "subscribe_result \<Rightarrow> bool" where
  "isFails r = (case r of Fails d err \<Rightarrow> True | _ \<Rightarrow> False)"

definition failing :: "environment \<Rightarrow> nat \<Rightarrow> bool" where
  "failing e k = list_all (\<lambda>i. isFails (ethSubscribe e i)) [0..<k]"

definition open_until :: "environment \<Rightarrow> nat \<Rightarrow> bool" where
  "open_until e t = (case sigCloseAt e of None \<Rightarrow> True | Some tc \<Rightarrow> t < tc)"

text \<open>
  When every call so far has failed and no shutdown has been signalled, call \<open>i\<close> starts
  at \<open>attemptAt e i\<close> and returns at \<open>returnAt e i\<close>: the first call starts at 0, and each
  later one a tick after the call before it returned.
\<close>

definition took :: "subscribe_result \<Rightarrow> nat" where
  "took r = (case r of Hangs \<Rightarrow> 0 | Fails d err \<Rightarrow> d | Succeeds d failure \<Rightarrow> d)"

fun attemptAt :: "environment \<Rightarrow> nat \<Rightarrow> nat" where
  "attemptAt e 0 = 0"
| "attemptAt e (Suc i) =
     attemptAt e i + took (ethSubscribe e i) + axisHeadsObserverSubscribeTick"

definition returnAt :: "environment \<Rightarrow> nat \<Rightarrow> nat" where
  "returnAt e i = attemptAt e i + took (ethSubscribe e i)"

text \<open>
  The events of the failed call \<open>i\<close> and of the wait that follows it, and the worker at the
  moment it makes call \<open>k\<close> after \<open>k\<close> such rounds.
\<close>

definition failedRound :: "environment \<Rightarrow> nat \<Rightarrow> (nat \<times> event) list" where
  "failedRound e i =
     [(attemptAt e i, CallEthSubscribe),
      (returnAt e i, LogCritical),
      (returnAt e i, NewTimer axisHeadsObserverSubscribeTick),
      (returnAt e i + axisHeadsObserverSubscribeTick, RecvTimer)]"

definition beforeCall :: "environment \<Rightarrow> nat \<Rightarrow> worker" where
  "beforeCall e k =
     \<lparr>sub = None, now = attemptAt e k, calls = k, selects = k,
      trace = concat (map (failedRound e) [0..<k])\<rparr>"

text \<open>
  The same from any unsubscribed state, at time \<open>t\<close> with \<open>c\<close> calls made so far:
  \<open>failingFrom e c k\<close> says that the next \<open>k\<close> calls fail; after \<open>i\<close> failed retries the
  worker is back at the head of the loop at \<open>unsubscribedAt e t c i\<close>; \<open>retryRound\<close> is
  the \<open>i\<close>-th of these rounds (a new timer, its expiry one tick later, the call, the
  critical log line when the call returns) and \<open>afterRetries\<close> the worker after \<open>k\<close> of
  them.
\<close>

fun unsubscribedAt :: "environment \<Rightarrow> nat \<Rightarrow> nat \<Rightarrow> nat \<Rightarrow> nat" where
  "unsubscribedAt e t c 0 = t"
| "unsubscribedAt e t c (Suc i) =
     unsubscribedAt e t c i + axisHeadsObserverSubscribeTick + took (ethSubscribe e (c + i))"

definition retryRound :: "environment \<Rightarrow> nat \<Rightarrow> nat \<Rightarrow> nat \<Rightarrow> (nat \<times> event) list" where
  "retryRound e t c i =
     [(unsubscribedAt e t c i, NewTimer axisHeadsObserverSubscribeTick),
      (unsubscribedAt e t c i + axisHeadsObserverSubscribeTick, RecvTimer),
      (unsubscribedAt e t c i + axisHeadsObserverSubscribeTick, CallEthSubscribe),
      (unsubscribedAt e t c (Suc i), LogCritical)]"

definition failingFrom :: "environment \<Rightarrow> nat \<Rightarrow> nat \<Rightarrow> bool" where
  "failingFrom e c k = list_all (\<lambda>i. isFails (ethSubscribe e (c + i))) [0..<k]"

definition afterRetries :: "environment \<Rightarrow> worker \<Rightarrow> nat \<Rightarrow> worker" where
  "afterRetries e w k =
     w\<lparr>now := unsubscribedAt e (now w) (calls w) k, calls := calls w + k,
       selects := selects w + k,
       trace := trace w @ concat (map (retryRound e (now w) (calls w)) [0..<k])\<rparr>"

section \<open>Properties of the decimals correction\<close>

declare decimalLoop.simps [simp del]
declare divisions_by_ten.simps [simp del]

lemma divisions_by_ten_small: "v \<le> 1 \<Longrightarrow> divisions_by_ten v = 0"
  by (simp add: divisions_by_ten.simps [of v])

lemma divisions_by_ten_step:
  "1 < v \<Longrightarrow> divisions_by_ten v = Suc (divisions_by_ten (v div 10))"
  by (simp add: divisions_by_ten.simps [of v])

text \<open>The loop adds the number of divisions to \<open>dec\<close> (in \<open>int32\<close> arithmetic).\<close>

lemma decimalLoop_refines:
  "decimalLoop v dec = dec + of_nat (divisions_by_ten (unat v))"
proof (induction v dec rule: decimalLoop.induct)
  case (1 v dec)
  show ?case
  proof (cases "1 < v")
    case True
    then have u: "1 < unat v" by (simp add: word_less_nat_alt)
    have "decimalLoop v dec = decimalLoop (v div 10) (dec + 1)"
      using True by (simp add: decimalLoop.simps [of v])
    also have "\<dots> = dec + 1 + of_nat (divisions_by_ten (unat (v div 10)))"
      using "1.IH" True by simp
    also have "\<dots> = dec + of_nat (divisions_by_ten (unat v))"
      using u by (simp add: divisions_by_ten_step unat_div)
    finally show ?thesis .
  next
    case False
    then have u: "unat v \<le> 1" by (simp add: word_less_nat_alt)
    show ?thesis using False u
      by (simp add: decimalLoop.simps [of v] divisions_by_ten_small)
  qed
qed

lemma divisions_by_ten_bound: "v < 10 ^ k \<Longrightarrow> divisions_by_ten v \<le> k"
proof (induction k arbitrary: v)
  case 0
  then show ?case by (simp add: divisions_by_ten_small)
next
  case (Suc k)
  show ?case
  proof (cases "v \<le> 1")
    case True
    then show ?thesis by (simp add: divisions_by_ten_small)
  next
    case False
    from Suc.prems have "v div 10 < 10 ^ k"
      by (simp add: less_mult_imp_div_less mult.commute)
    then have "divisions_by_ten (v div 10) \<le> k" by (rule Suc.IH)
    then show ?thesis using False by (simp add: divisions_by_ten_step)
  qed
qed

text \<open>A leading digit 1 (\<open>10^k \<le> v < 2 * 10^k\<close>) gives \<open>k\<close>, any other \<open>k + 1\<close>.\<close>

lemma divisions_by_ten_leading_one:
  "10 ^ k \<le> v \<Longrightarrow> v < 2 * 10 ^ k \<Longrightarrow> divisions_by_ten v = k"
proof (induction k arbitrary: v)
  case 0
  then have "v \<le> 1" by simp
  then show ?case by (simp add: divisions_by_ten_small)
next
  case (Suc k)
  then have "10 ^ k \<le> v div 10" "v div 10 < 2 * 10 ^ k" by simp_all
  then have "divisions_by_ten (v div 10) = k" by (rule Suc.IH)
  moreover have "(0::nat) < 10 ^ k" by simp
  then have "1 < v" using Suc.prems(1) by (simp only: power_Suc)
  ultimately show ?case by (simp add: divisions_by_ten_step)
qed

lemma divisions_by_ten_leading_other:
  "2 * 10 ^ k \<le> v \<Longrightarrow> v < 10 ^ Suc k \<Longrightarrow> divisions_by_ten v = Suc k"
proof (induction k arbitrary: v)
  case 0
  then have "1 < v" "v div 10 \<le> 1" by simp_all
  then show ?case by (simp add: divisions_by_ten_step divisions_by_ten_small)
next
  case (Suc k)
  then have "2 * 10 ^ k \<le> v div 10" "v div 10 < 10 ^ Suc k" by simp_all
  then have "divisions_by_ten (v div 10) = Suc k" by (rule Suc.IH)
  moreover have "(0::nat) < 10 ^ k" by simp
  then have "1 < v" using Suc.prems(1) by (simp only: power_Suc)
  ultimately show ?case by (simp add: divisions_by_ten_step)
qed

text \<open>At most 20 divisions fit a \<open>uint64\<close>, so the \<open>int32\<close> counter never wraps.\<close>

lemma decimalLoop_sint:
  "sint (decimalLoop v 0) = int (divisions_by_ten (unat v))"
proof -
  have "unat v < 2 ^ 64" using unsigned_less [of v] by simp
  also have "(2::nat) ^ 64 \<le> 10 ^ 20" by simp
  finally have "divisions_by_ten (unat v) \<le> 20" by (rule divisions_by_ten_bound)
  then have "sint (word_of_nat (divisions_by_ten (unat v)) :: 32 word)
      = int (divisions_by_ten (unat v))"
    by (simp add: signed_of_nat signed_take_bit_int_eq_self)
  then show ?thesis by (simp add: decimalLoop_refines)
qed

lemma decimalLoop_floor_log:
  fixes v :: "64 word"
  assumes "2 \<le> v"
  shows "sint (decimalLoop v 0) =
           \<lfloor>log 10 (real (unat v))\<rfloor>
             + (if unat v < 2 * 10 ^ nat \<lfloor>log 10 (real (unat v))\<rfloor> then 0 else 1)"
proof -
  define u where "u = unat v"
  define k where "k = nat \<lfloor>log 10 (real u)\<rfloor>"
  have u2: "2 \<le> u" using assms by (simp add: u_def word_le_nat_alt)
  then have "0 \<le> log 10 (real u)" by simp
  then have kk: "\<lfloor>log (real 10) (real u)\<rfloor> = int k" by (simp add: k_def)
  have bounds: "10 ^ k \<le> u \<and> u < 10 ^ (k + 1)"
    using kk u2 by (subst (asm) floor_log_nat_eq_powr_iff) simp_all
  show ?thesis
  proof (cases "u < 2 * 10 ^ k")
    case True
    with bounds have "divisions_by_ten u = k"
      by (simp add: divisions_by_ten_leading_one)
    then show ?thesis using True kk
      by (simp add: decimalLoop_sint u_def [symmetric] k_def [symmetric])
  next
    case False
    with bounds have "divisions_by_ten u = Suc k"
      by (simp add: divisions_by_ten_leading_other)
    then show ?thesis using False kk
      by (simp add: decimalLoop_sint u_def [symmetric] k_def [symmetric])
  qed
qed

lemma floor_log10_20: "\<lfloor>log 10 (real (unat (20 :: 64 word)))\<rfloor> = 1"
proof -
  have "\<lfloor>log (real 10) (real 20)\<rfloor> = int 1"
    by (rule floor_log_nat_eq_if) simp_all
  then show ?thesis by simp
qed

text \<open>
  C10 (as stated: the result is \<open>floor (log10 v)\<close> for \<open>v \<ge> 2\<close>) fails at \<open>v = 2\<close>: one
  division brings 2 to 0, so the loop returns 1, and \<open>floor (log10 2) = 0\<close>.
\<close>

theorem decimalLoop_not_floor_log:
  "sint (decimalLoop 2 0) \<noteq> \<lfloor>log 10 (real (unat (2 :: 64 word)))\<rfloor>"
proof -
  have "\<lfloor>log (real 10) (real 2)\<rfloor> = int 0"
    by (rule floor_log_nat_eq_if) simp_all
  moreover have "sint (decimalLoop 2 0) = 1"
    by (simp add: decimalLoop_sint divisions_by_ten_step divisions_by_ten_small)
  ultimately show ?thesis by simp
qed

text \<open>
  C10, amended. The loop of \<open>pullDefiDecimalCorrection\<close> terminates for every \<open>uint64\<close>
  value \<open>v\<close> (it is a total function), and on a loaded value \<open>x\<close> the function returns,
  with a nil error, the number of times \<open>v = Uint64 x\<close> can be integer-divided by 10
  before the result is at most 1. That number is 0 for \<open>v \<le> 1\<close>; for \<open>v \<ge> 2\<close> it is
  \<open>floor (log10 v)\<close> when the leading decimal digit of \<open>v\<close> is 1
  (\<open>v < 2 * 10 ^ floor (log10 v)\<close>, as for every power of ten), and
  \<open>floor (log10 v) + 1\<close> otherwise.
\<close>

theorem pullDefiDecimalCorrection_decimals:
  fixes v :: "64 word"
  shows "pullDefiDecimalCorrection (Some x, None) = (decimalLoop (Uint64 x) 0, None)
    \<and> sint (decimalLoop v 0) = int (divisions_by_ten (unat v))
    \<and> (v \<le> 1 \<longrightarrow> decimalLoop v 0 = 0)
    \<and> (2 \<le> v \<longrightarrow> sint (decimalLoop v 0) =
          \<lfloor>log 10 (real (unat v))\<rfloor>
            + (if unat v < 2 * 10 ^ nat \<lfloor>log 10 (real (unat v))\<rfloor> then 0 else 1))"
proof -
  have "pullDefiDecimalCorrection (Some x, None) = (decimalLoop (Uint64 x) 0, None)"
    by (simp add: pullDefiDecimalCorrection_def pullDefiConfigValue_def)
  moreover have "v \<le> 1 \<longrightarrow> decimalLoop v 0 = 0"
    by (simp add: decimalLoop_refines divisions_by_ten_small word_le_nat_alt)
  ultimately show ?thesis
    using decimalLoop_sint [of v] decimalLoop_floor_log [of v] by blast
qed

theorem pullDefiDecimalCorrection_decimals_witness:
  "(1 :: 64 word) \<le> 1 \<and> decimalLoop 1 0 = 0
   \<and> (2 :: 64 word) \<le> 20 \<and> sint (decimalLoop 20 0) = 2
   \<and> pullDefiDecimalCorrection (Some 10000, None) = (4, None)"
proof -
  have a: "decimalLoop 1 0 = 0"
    using pullDefiDecimalCorrection_decimals [of 0 1] by simp
  have b: "sint (decimalLoop 20 0) = 2"
    using pullDefiDecimalCorrection_decimals [of 0 20] floor_log10_20 by simp
  have "pullDefiDecimalCorrection (Some 10000, None) = (decimalLoop (Uint64 10000) 0, None)"
    using pullDefiDecimalCorrection_decimals [of 10000 0] by blast
  moreover have "decimalLoop (Uint64 10000) 0 = 4"
    by (simp add: Uint64_def decimalLoop_refines divisions_by_ten_step divisions_by_ten_small)
  ultimately show ?thesis using a b by simp
qed

section \<open>Properties of the staking calls\<close>

text \<open>
  C8. For some input \<open>StakeUnlockPenalty\<close> returns a nil penalty together with a nil
  error: whenever packing and the contract call both succeed and the response is not 32
  bytes long, the function returns \<open>nil\<close> for the value and the (nil) error of the
  successful call.
\<close>

theorem StakeUnlockPenalty_nil_value_nil_error:
  "(sfcAbiPack axis ''unlockStake'' (Some valID) (Some amount) = (cd, None)
      \<and> ethCallContract axis \<lparr>From = addr, To = sfcConfigSFCContract axis, Data = cd\<rparr>
            = (data, None)
      \<and> length data \<noteq> 32
    \<longrightarrow> StakeUnlockPenalty axis (Some addr) (Some valID) (Some amount) = Return (None, None))
   \<and> (\<exists>axis' addr' valID' amount'.
         StakeUnlockPenalty axis' addr' valID' amount' = Return (None, None))"
proof -
  have general: "StakeUnlockPenalty ax (Some a) (Some v) (Some m) = Return (None, None)"
    if "sfcAbiPack ax ''unlockStake'' (Some v) (Some m) = (c, None)"
      and "ethCallContract ax \<lparr>From = a, To = sfcConfigSFCContract ax, Data = c\<rparr> = (d, None)"
      and "length d \<noteq> 32"
    for ax a v m c d
    using that by (simp add: StakeUnlockPenalty_def logArgs_def)
  define ax :: AxisBridge where
    "ax = \<lparr>sfcAbiPack = (\<lambda>_ _ _. ([], None)), ethCallContract = (\<lambda>_. ([], None)),
           sfcConfigSFCContract = 0, sfcPendingRewards = (\<lambda>_ _. (None, None))\<rparr>"
  have "StakeUnlockPenalty ax (Some 0) (Some 0) (Some 0) = Return (None, None)"
    by (rule general [where c = "[]" and d = "[]"]) (simp_all add: ax_def)
  then show ?thesis using general by blast
qed

text \<open>
  An instance: the packed call is four bytes, the node answers with an empty response.
\<close>

theorem StakeUnlockPenalty_nil_value_nil_error_witness:
  "StakeUnlockPenalty
     \<lparr>sfcAbiPack = (\<lambda>_ _ _. ([1, 2, 3, 4], None)), ethCallContract = (\<lambda>_. ([], None)),
      sfcConfigSFCContract = 7, sfcPendingRewards = (\<lambda>_ _. (None, None))\<rparr>
     (Some 5) (Some 1) (Some 1000) = Return (None, None)"
  using StakeUnlockPenalty_nil_value_nil_error
    [of "\<lparr>sfcAbiPack = (\<lambda>_ _ _. ([1, 2, 3, 4], None)), ethCallContract = (\<lambda>_. ([], None)),
      sfcConfigSFCContract = 7, sfcPendingRewards = (\<lambda>_ _. (None, None))\<rparr>"
      1 1000 "[1, 2, 3, 4]" 5 "[]"]
  by simp

text \<open>
  C9. \<open>PendingRewards\<close> never returns a non-nil error. For every address and validator
  id: when the contract call fails it returns the record with the given address, the
  given staker id and a zero amount, with a nil error; when the call succeeds it returns
  the same record with the amount fetched.
\<close>

theorem PendingRewards_nil_error:
  "(\<forall>r e. PendingRewards axis addr valID \<noteq> Return (r, Some e))
   \<and> (sfcPendingRewards axis a (Some v) = (amo, Some e)
        \<longrightarrow> PendingRewards axis (Some a) (Some v)
              = Return (\<lparr>Address = a, Staker = v, Amount = 0\<rparr>, None))
   \<and> (sfcPendingRewards axis a (Some v) = (Some am, None)
        \<longrightarrow> PendingRewards axis (Some a) (Some v)
              = Return (\<lparr>Address = a, Staker = v, Amount = am\<rparr>, None))"
  by (auto simp: PendingRewards_def Let_def split: option.splits prod.splits)

text \<open>An instance of each case: the call reverts for address 5 and answers 42 otherwise.\<close>

theorem PendingRewards_nil_error_witness:
  "PendingRewards
     \<lparr>sfcAbiPack = (\<lambda>_ _ _. ([], None)), ethCallContract = (\<lambda>_. ([], None)),
      sfcConfigSFCContract = 7,
      sfcPendingRewards =
        (\<lambda>a v. if a = 5 then (None, Some ''execution reverted'') else (Some 42, None))\<rparr>
     (Some 5) (Some 1) = Return (\<lparr>Address = 5, Staker = 1, Amount = 0\<rparr>, None)
   \<and> PendingRewards
     \<lparr>sfcAbiPack = (\<lambda>_ _ _. ([], None)), ethCallContract = (\<lambda>_. ([], None)),
      sfcConfigSFCContract = 7,
      sfcPendingRewards =
        (\<lambda>a v. if a = 5 then (None, Some ''execution reverted'') else (Some 42, None))\<rparr>
     (Some 6) (Some 1) = Return (\<lparr>Address = 6, Staker = 1, Amount = 42\<rparr>, None)"
  using PendingRewards_nil_error
    [of "\<lparr>sfcAbiPack = (\<lambda>_ _ _. ([], None)), ethCallContract = (\<lambda>_. ([], None)),
      sfcConfigSFCContract = 7,
      sfcPendingRewards =
        (\<lambda>a v. if a = 5 then (None, Some ''execution reverted'') else (Some 42, None))\<rparr>"
      None None 5 1 None "''execution reverted''" 42]
    PendingRewards_nil_error
    [of "\<lparr>sfcAbiPack = (\<lambda>_ _ _. ([], None)), ethCallContract = (\<lambda>_. ([], None)),
      sfcConfigSFCContract = 7,
      sfcPendingRewards =
        (\<lambda>a v. if a = 5 then (None, Some ''execution reverted'') else (Some 42, None))\<rparr>"
      None None 6 1 None "''execution reverted''" 42]
  by simp

section \<open>Properties of the block observer\<close>

subsection \<open>The select statement and one iteration, case by case\<close>

lemma select2_None: "select2 pk t a b = None \<longleftrightarrow> a = None \<and> b = None"
  by (auto simp: select2_def split: option.splits)

lemma select2_First:
  "select2 pk t a b = Some (t', First) \<Longrightarrow> \<exists>ta. a = Some ta \<and> t' = max t ta"
  by (auto simp: select2_def split: option.splits if_splits)

lemma select2_Second:
  "select2 pk t a b = Some (t', Second) \<Longrightarrow> \<exists>tb. b = Some tb \<and> t' = max t tb"
  by (auto simp: select2_def split: option.splits if_splits)

lemma select2_close_only: "select2 pk t (Some tc) None = Some (max t tc, First)"
  by (simp add: select2_def)

lemma select2_close_first:
  "max t tc < max t tb \<Longrightarrow> select2 pk t (Some tc) (Some tb) = Some (max t tc, First)"
  by (simp add: select2_def)

lemma select2_tie:
  "max t tc = max t tb \<Longrightarrow>
     select2 pk t (Some tc) (Some tb) = Some (max t tc, if pk then First else Second)"
  by (simp add: select2_def)

text \<open>
  The seven ways an iteration can go, each with the state it leaves: in the unsubscribed
  wait the shutdown signal wins, or the timer does and the call hangs, fails or succeeds;
  in the subscribed wait the shutdown signal wins, or the stream fails, or nothing ever
  happens.
\<close>

lemma iteration_cases [consumes 1, case_names timer_close retry_hangs retry_fails
    retry_succeeds sub_close sub_failed sub_blocked]:
  assumes it: "iteration e w = out"
  obtains
    (timer_close) tc where "sub w = None" "sigCloseAt e = Some tc"
      "out = Exited (w\<lparr>now := max (now w) tc, selects := Suc (selects w),
          trace := trace w @ [(now w, NewTimer axisHeadsObserverSubscribeTick),
            (max (now w) tc, RecvSigClose), (max (now w) tc, LogNotice),
            (max (now w) tc, WgDone)]\<rparr>)"
  | (retry_hangs) "sub w = None" "ethSubscribe e (calls w) = Hangs"
      "out = Blocked (w\<lparr>now := now w + axisHeadsObserverSubscribeTick,
          calls := Suc (calls w), selects := Suc (selects w),
          trace := trace w @ [(now w, NewTimer axisHeadsObserverSubscribeTick),
            (now w + axisHeadsObserverSubscribeTick, RecvTimer),
            (now w + axisHeadsObserverSubscribeTick, CallEthSubscribe)]\<rparr>)"
  | (retry_fails) d err where "sub w = None" "ethSubscribe e (calls w) = Fails d err"
      "out = Running (w\<lparr>now := now w + axisHeadsObserverSubscribeTick + d,
          calls := Suc (calls w), selects := Suc (selects w),
          trace := trace w @ [(now w, NewTimer axisHeadsObserverSubscribeTick),
            (now w + axisHeadsObserverSubscribeTick, RecvTimer),
            (now w + axisHeadsObserverSubscribeTick, CallEthSubscribe),
            (now w + axisHeadsObserverSubscribeTick + d, LogCritical)]\<rparr>)"
  | (retry_succeeds) d failure where "sub w = None"
      "ethSubscribe e (calls w) = Succeeds d failure"
      "out = Running (w\<lparr>sub := Some \<lparr>sid = calls w, errAt = failure\<rparr>,
          now := now w + axisHeadsObserverSubscribeTick + d,
          calls := Suc (calls w), selects := Suc (selects w),
          trace := trace w @ [(now w, NewTimer axisHeadsObserverSubscribeTick),
            (now w + axisHeadsObserverSubscribeTick, RecvTimer),
            (now w + axisHeadsObserverSubscribeTick, CallEthSubscribe)]\<rparr>)"
  | (sub_close) s tc where "sub w = Some s" "sigCloseAt e = Some tc"
      "out = Exited (w\<lparr>now := max (now w) tc, selects := Suc (selects w),
          trace := trace w @ [(max (now w) tc, RecvSigClose),
            (max (now w) tc, Unsubscribe (sid s)), (max (now w) tc, LogNotice),
            (max (now w) tc, WgDone)]\<rparr>)"
  | (sub_failed) s te where "sub w = Some s" "errAt s = Some te"
      "out = Running (w\<lparr>sub := None, now := max (now w) te, selects := Suc (selects w),
          trace := trace w @ [(max (now w) te, RecvErr (sid s)),
            (max (now w) te, LogError)]\<rparr>)"
  | (sub_blocked) s where "sub w = Some s" "errAt s = None" "sigCloseAt e = None"
      "out = Blocked w"
proof (cases "sub w")
  case None
  obtain t c where sel: "select2 (pick e (selects w)) (now w) (sigCloseAt e)
      (Some (now w + axisHeadsObserverSubscribeTick)) = Some (t, c)"
    by (cases "select2 (pick e (selects w)) (now w) (sigCloseAt e)
      (Some (now w + axisHeadsObserverSubscribeTick))") (auto simp: select2_None)
  show thesis
  proof (cases c)
    case First
    with sel obtain tc where tc: "sigCloseAt e = Some tc" "t = max (now w) tc"
      using select2_First by blast
    have "out = Exited (w\<lparr>now := max (now w) tc, selects := Suc (selects w),
          trace := trace w @ [(now w, NewTimer axisHeadsObserverSubscribeTick),
            (max (now w) tc, RecvSigClose), (max (now w) tc, LogNotice),
            (max (now w) tc, WgDone)]\<rparr>)"
      using it None sel First tc(2) by (auto simp: iteration_def selectOn_def deferred_def emit_def intro!: worker.equality)
    with None tc(1) show thesis by (rule timer_close)
  next
    case Second
    with sel have t: "t = now w + axisHeadsObserverSubscribeTick"
      using select2_Second by fastforce
    show thesis
    proof (cases "ethSubscribe e (calls w)")
      case Hangs
      have "out = Blocked (w\<lparr>now := now w + axisHeadsObserverSubscribeTick,
          calls := Suc (calls w), selects := Suc (selects w),
          trace := trace w @ [(now w, NewTimer axisHeadsObserverSubscribeTick),
            (now w + axisHeadsObserverSubscribeTick, RecvTimer),
            (now w + axisHeadsObserverSubscribeTick, CallEthSubscribe)]\<rparr>)"
        using it None sel Second t Hangs
        by (auto simp: iteration_def selectOn_def blockSubscription_def assignSub_def emit_def intro!: worker.equality)
      with None Hangs show thesis by (rule retry_hangs)
    next
      case (Fails d err)
      have "out = Running (w\<lparr>now := now w + axisHeadsObserverSubscribeTick + d,
          calls := Suc (calls w), selects := Suc (selects w),
          trace := trace w @ [(now w, NewTimer axisHeadsObserverSubscribeTick),
            (now w + axisHeadsObserverSubscribeTick, RecvTimer),
            (now w + axisHeadsObserverSubscribeTick, CallEthSubscribe),
            (now w + axisHeadsObserverSubscribeTick + d, LogCritical)]\<rparr>)"
        using it None sel Second t Fails
        by (auto simp: iteration_def selectOn_def blockSubscription_def assignSub_def emit_def intro!: worker.equality)
      with None Fails show thesis by (rule retry_fails)
    next
      case (Succeeds d failure)
      have "out = Running (w\<lparr>sub := Some \<lparr>sid = calls w, errAt = failure\<rparr>,
          now := now w + axisHeadsObserverSubscribeTick + d,
          calls := Suc (calls w), selects := Suc (selects w),
          trace := trace w @ [(now w, NewTimer axisHeadsObserverSubscribeTick),
            (now w + axisHeadsObserverSubscribeTick, RecvTimer),
            (now w + axisHeadsObserverSubscribeTick, CallEthSubscribe)]\<rparr>)"
        using it None sel Second t Succeeds
        by (auto simp: iteration_def selectOn_def blockSubscription_def assignSub_def emit_def intro!: worker.equality)
      with None Succeeds show thesis by (rule retry_succeeds)
    qed
  qed
next
  case (Some s)
  show thesis
  proof (cases "select2 (pick e (selects w)) (now w) (sigCloseAt e) (errAt s)")
    case None
    then have "errAt s = None" "sigCloseAt e = None" by (simp_all add: select2_None)
    moreover have "out = Blocked w"
      using it Some None by (auto simp: iteration_def selectOn_def intro!: worker.equality)
    ultimately show thesis using Some sub_blocked by blast
  next
    case sel: (Some tc)
    obtain t c where tc: "tc = (t, c)" by (cases tc)
    show thesis
    proof (cases c)
      case First
      with sel tc obtain tcl where cl: "sigCloseAt e = Some tcl" "t = max (now w) tcl"
        using select2_First by blast
      have "out = Exited (w\<lparr>now := max (now w) tcl, selects := Suc (selects w),
          trace := trace w @ [(max (now w) tcl, RecvSigClose),
            (max (now w) tcl, Unsubscribe (sid s)), (max (now w) tcl, LogNotice),
            (max (now w) tcl, WgDone)]\<rparr>)"
        using it Some sel tc First cl(2)
        by (auto simp: iteration_def selectOn_def deferred_def emit_def intro!: worker.equality)
      with Some cl(1) show thesis by (rule sub_close)
    next
      case Second
      with sel tc obtain te where te: "errAt s = Some te" "t = max (now w) te"
        using select2_Second by blast
      have "out = Running (w\<lparr>sub := None, now := max (now w) te, selects := Suc (selects w),
          trace := trace w @ [(max (now w) te, RecvErr (sid s)),
            (max (now w) te, LogError)]\<rparr>)"
        using it Some sel tc Second te(2)
        by (auto simp: iteration_def selectOn_def emit_def intro!: worker.equality)
      with Some te(1) show thesis by (rule sub_failed)
    qed
  qed
qed

text \<open>
The first call of \<open>blockSubscription\<close>, before the loop.
\<close>

lemma first_call_cases [case_names hangs fails succeeds]:
  obtains
    (hangs) "ethSubscribe e 0 = Hangs"
      "assignSub (blockSubscription e start) = Blocked
         \<lparr>sub = None, now = 0, calls = 1, selects = 0, trace = [(0, CallEthSubscribe)]\<rparr>"
  | (fails) d err where "ethSubscribe e 0 = Fails d err"
      "assignSub (blockSubscription e start) = Running
         \<lparr>sub = None, now = d, calls = 1, selects = 0,
          trace = [(0, CallEthSubscribe), (d, LogCritical)]\<rparr>"
  | (succeeds) d failure where "ethSubscribe e 0 = Succeeds d failure"
      "assignSub (blockSubscription e start) = Running
         \<lparr>sub = Some \<lparr>sid = 0, errAt = failure\<rparr>, now = d, calls = 1, selects = 0,
          trace = [(0, CallEthSubscribe)]\<rparr>"
  by (cases "ethSubscribe e 0")
    (auto simp: blockSubscription_def assignSub_def start_def emit_def)

subsection \<open>Reading traces\<close>

lemma teardowns_simps [simp]:
  "teardowns [] = []"
  "teardowns (tr @ tr') = teardowns tr @ teardowns tr'"
  "teardowns ((t, ev) # tr) = (case ev of Unsubscribe h \<Rightarrow> [h] | _ \<Rightarrow> []) @ teardowns tr"
  by (simp_all add: teardowns_def)

lemma failed_simps [simp]:
  "failed [] = []"
  "failed (tr @ tr') = failed tr @ failed tr'"
  "failed ((t, ev) # tr) = (case ev of RecvErr h \<Rightarrow> [h] | _ \<Rightarrow> []) @ failed tr"
  by (simp_all add: failed_def)

lemma timers_simps [simp]:
  "timers [] = []"
  "timers (tr @ tr') = timers tr @ timers tr'"
  "timers ((t, ev) # tr) = (case ev of NewTimer d \<Rightarrow> [(t, d)] | _ \<Rightarrow> []) @ timers tr"
  by (simp_all add: timers_def)

lemma attempts_simps [simp]:
  "attempts [] = []"
  "attempts (tr @ tr') = attempts tr @ attempts tr'"
  "attempts ((t, ev) # tr) = (if ev = CallEthSubscribe then [t] else []) @ attempts tr"
  by (simp_all add: attempts_def)

lemma occurrences_simps [simp]:
  "occurrences ev [] = 0"
  "occurrences ev (tr @ tr') = occurrences ev tr + occurrences ev tr'"
  "occurrences ev ((t, ev') # tr) = (if ev' = ev then 1 else 0) + occurrences ev tr"
  by (simp_all add: occurrences_def)



subsection \<open>Invariants of the loop\<close>

text \<open>
  A property that holds after the first call and that every iteration preserves holds
  whenever the worker is at the head of the loop, and every final outcome comes from an
  iteration started in a state that has it.
\<close>

lemma loop_outcome:
  assumes "P w" and "\<And>v v'. P v \<Longrightarrow> iteration e v = Running v' \<Longrightarrow> P v'"
  shows "case loop e n w of
           Running w' \<Rightarrow> P w'
         | out \<Rightarrow> \<exists>v. P v \<and> iteration e v = out"
  using assms(1)
proof (induction n arbitrary: w)
  case 0
  then show ?case by simp
next
  case (Suc n)
  show ?case
  proof (cases "iteration e w")
    case (Running w')
    then have "P w'" using Suc.prems assms(2) by blast
    then show ?thesis using Suc.IH [of w'] Running by simp
  next
    case (Exited w')
    then show ?thesis using Suc.prems by auto
  next
    case (Blocked w')
    then show ?thesis using Suc.prems by auto
  qed
qed

lemma observeBlocks_outcome:
  assumes init: "\<And>w. assignSub (blockSubscription e start) = Running w \<Longrightarrow> P w"
    and step: "\<And>v v'. P v \<Longrightarrow> iteration e v = Running v' \<Longrightarrow> P v'"
  shows "case observeBlocks e n of
           Running w' \<Rightarrow> P w'
         | Exited w' \<Rightarrow> \<exists>v. P v \<and> iteration e v = Exited w'
         | Blocked w' \<Rightarrow> assignSub (blockSubscription e start) = Blocked w'
                          \<or> (\<exists>v. P v \<and> iteration e v = Blocked w')"
proof (cases "assignSub (blockSubscription e start)")
  case (Running w)
  then have "P w" by (rule init)
  then have "case loop e n w of Running w' \<Rightarrow> P w' | out \<Rightarrow> \<exists>v. P v \<and> iteration e v = out"
    using step by (rule loop_outcome)
  then show ?thesis using Running
    by (auto simp: observeBlocks_def split: outcome.splits)
next
  case (Exited w)
  then show ?thesis by (cases rule: first_call_cases [of e]) simp_all
next
  case (Blocked w)
  then show ?thesis by (simp add: observeBlocks_def)
qed


subsection \<open>Some runs\<close>

lemmas run_defs = observeBlocks_def blockSubscription_def assignSub_def start_def emit_def
  iteration_def selectOn_def select2_def deferred_def axisHeadsObserverSubscribeTick_def

text \<open>
  Shutdown at 50 ns while subscribed (the call took 10 ns), and while waiting to retry
  after a failed call; two failed calls of 3 ns each and then a successful one.
\<close>

lemma shutdown_while_subscribed:
  "observeBlocks \<lparr>sigCloseAt = Some 50, ethSubscribe = (\<lambda>_. Succeeds 10 None),
       pick = (\<lambda>_. True)\<rparr> (Suc 0)
     = Exited \<lparr>sub = Some \<lparr>sid = 0, errAt = None\<rparr>, now = 50, calls = 1, selects = 1,
         trace = [(0, CallEthSubscribe), (50, RecvSigClose), (50, Unsubscribe 0),
           (50, LogNotice), (50, WgDone)]\<rparr>"
  by (simp add: run_defs)

lemma shutdown_while_waiting_to_retry:
  "observeBlocks \<lparr>sigCloseAt = Some 50, ethSubscribe = (\<lambda>_. Fails 3 ''connection refused''),
       pick = (\<lambda>_. True)\<rparr> (Suc 0)
     = Exited \<lparr>sub = None, now = 50, calls = 1, selects = 1,
         trace = [(0, CallEthSubscribe), (3, LogCritical), (3, NewTimer 30000000000),
           (50, RecvSigClose), (50, LogNotice), (50, WgDone)]\<rparr>"
  by (simp add: run_defs)


subsection \<open>Cleanup on exit\<close>

lemma quiet_init: "assignSub (blockSubscription e start) = Running w \<Longrightarrow> quiet w"
  by (cases rule: first_call_cases [of e]) (auto simp: quiet_def)

lemma quiet_step: "quiet v \<Longrightarrow> iteration e v = Running v' \<Longrightarrow> quiet v'"
  by (erule iteration_cases) (auto simp: quiet_def less_Suc_eq)

lemma quiet_Exited:
  assumes "quiet v" "iteration e v = Exited w"
  shows "teardowns (trace w) = (case sub w of None \<Rightarrow> [] | Some s \<Rightarrow> [sid s])
       \<and> set (teardowns (trace w)) \<inter> set (failed (trace w)) = {}
       \<and> occurrences WgDone (trace w) = 1"
  using assms(2,1) by (cases rule: iteration_cases) (auto simp: quiet_def)

lemma quiet_Blocked:
  assumes "quiet v" "iteration e v = Blocked w"
  shows "teardowns (trace w) = [] \<and> occurrences WgDone (trace w) = 0"
  using assms(2,1) by (cases rule: iteration_cases) (auto simp: quiet_def)

lemma first_call_Blocked:
  assumes "assignSub (blockSubscription e start) = Blocked w"
  shows "teardowns (trace w) = [] \<and> occurrences WgDone (trace w) = 0"
  using assms by (cases rule: first_call_cases [of e]) auto

lemma quiet_outcome:
  "case observeBlocks e n of
           Running w' \<Rightarrow> quiet w'
         | Exited w' \<Rightarrow> \<exists>v. quiet v \<and> iteration e v = Exited w'
         | Blocked w' \<Rightarrow> assignSub (blockSubscription e start) = Blocked w'
                          \<or> (\<exists>v. quiet v \<and> iteration e v = Blocked w')"
  by (rule observeBlocks_outcome) (erule quiet_init, erule quiet_step)

text \<open>
  C1. For every run of \<open>observeBlocks\<close>, whatever the calls return, whenever the streams
  fail and the shutdown signal fires and whatever \<open>select\<close> picks: when the worker has
  returned, \<open>Unsubscribe\<close> has been called exactly once, on the handle then held in
  \<open>sub\<close>, when there is one, and not at all when \<open>sub\<close> is nil (the last call returned
  nil, or the handle failed and was dropped); it has been called on no handle whose failure
  was received; and \<open>wg.Done\<close> has been called exactly once. As long as the worker has not
  returned, neither has been called.
\<close>

theorem observeBlocks_cleanup_once:
  "case observeBlocks e n of
     Exited w \<Rightarrow>
       teardowns (trace w) = (case sub w of None \<Rightarrow> [] | Some s \<Rightarrow> [sid s])
       \<and> set (teardowns (trace w)) \<inter> set (failed (trace w)) = {}
       \<and> occurrences WgDone (trace w) = 1
   | Blocked w \<Rightarrow> teardowns (trace w) = [] \<and> occurrences WgDone (trace w) = 0
   | Running w \<Rightarrow> teardowns (trace w) = [] \<and> occurrences WgDone (trace w) = 0"
proof (cases "observeBlocks e n")
  case (Exited w)
  then obtain v where v: "quiet v" "iteration e v = Exited w"
    using quiet_outcome [of e n] by auto
  show ?thesis unfolding Exited outcome.case using v by (rule quiet_Exited)
next
  case (Blocked w)
  then have "assignSub (blockSubscription e start) = Blocked w
      \<or> (\<exists>v. quiet v \<and> iteration e v = Blocked w)"
    using quiet_outcome [of e n] by simp
  then show ?thesis using Blocked quiet_Blocked first_call_Blocked by auto
next
  case (Running w)
  then have "quiet w" using quiet_outcome [of e n] by simp
  then show ?thesis using Running by (simp add: quiet_def)
qed

text \<open>
  Two runs that return: with a live handle (one \<open>Unsubscribe\<close>, on handle 0), and with
  none (no \<open>Unsubscribe\<close>); \<open>wg.Done\<close> once in each.
\<close>

theorem observeBlocks_cleanup_once_witness:
  "teardowns (trace (state_of (observeBlocks \<lparr>sigCloseAt = Some 50,
       ethSubscribe = (\<lambda>_. Succeeds 10 None), pick = (\<lambda>_. True)\<rparr> (Suc 0)))) = [0]
   \<and> occurrences WgDone (trace (state_of (observeBlocks \<lparr>sigCloseAt = Some 50,
       ethSubscribe = (\<lambda>_. Succeeds 10 None), pick = (\<lambda>_. True)\<rparr> (Suc 0)))) = 1
   \<and> teardowns (trace (state_of (observeBlocks \<lparr>sigCloseAt = Some 50,
       ethSubscribe = (\<lambda>_. Fails 3 ''connection refused''), pick = (\<lambda>_. True)\<rparr> (Suc 0)))) = []
   \<and> occurrences WgDone (trace (state_of (observeBlocks \<lparr>sigCloseAt = Some 50,
       ethSubscribe = (\<lambda>_. Fails 3 ''connection refused''), pick = (\<lambda>_. True)\<rparr> (Suc 0)))) = 1"
  using observeBlocks_cleanup_once [of "\<lparr>sigCloseAt = Some 50,
       ethSubscribe = (\<lambda>_. Succeeds 10 None), pick = (\<lambda>_. True)\<rparr>" "Suc 0"]
    observeBlocks_cleanup_once [of "\<lparr>sigCloseAt = Some 50,
       ethSubscribe = (\<lambda>_. Fails 3 ''connection refused''), pick = (\<lambda>_. True)\<rparr>" "Suc 0"]
  by (simp add: shutdown_while_subscribed shutdown_while_waiting_to_retry state_of_def)

subsection \<open>The only way out is the shutdown signal\<close>

lemma iteration_Exited_sigClose:
  assumes "iteration e v = Exited w" "occurrences RecvSigClose (trace v) = 0"
  shows "\<exists>tc. sigCloseAt e = Some tc \<and> tc \<le> now w
           \<and> occurrences RecvSigClose (trace w) = 1
           \<and> (now w, RecvSigClose) \<in> set (trace w)"
  using assms by (cases rule: iteration_cases) auto

text \<open>
  C2. \<open>observeBlocks\<close> returns only on a received shutdown signal: whenever a run has
  returned, the signal had fired by then and the worker received it, once, at the instant
  it returned; and when no shutdown is ever signalled the worker never returns, whatever
  the calls and the streams do and however long it runs.
\<close>

theorem observeBlocks_returns_only_on_sigClose:
  "(observeBlocks e n = Exited w \<longrightarrow>
      (\<exists>tc. sigCloseAt e = Some tc \<and> tc \<le> now w)
      \<and> occurrences RecvSigClose (trace w) = 1
      \<and> (now w, RecvSigClose) \<in> set (trace w))
   \<and> (sigCloseAt e = None \<longrightarrow> (\<forall>m w'. observeBlocks e m \<noteq> Exited w'))"
proof -
  have exit: "\<exists>tc. sigCloseAt e = Some tc \<and> tc \<le> now w'
           \<and> occurrences RecvSigClose (trace w') = 1
           \<and> (now w', RecvSigClose) \<in> set (trace w')"
    if "observeBlocks e m = Exited w'" for m w'
  proof -
    from that obtain v where "quiet v" "iteration e v = Exited w'"
      using quiet_outcome [of e m] by auto
    then show ?thesis using iteration_Exited_sigClose by (simp add: quiet_def)
  qed
  show ?thesis
  proof (intro conjI impI allI)
    assume "observeBlocks e n = Exited w"
    from exit [OF this]
    show "\<exists>tc. sigCloseAt e = Some tc \<and> tc \<le> now w"
      and "occurrences RecvSigClose (trace w) = 1"
      and "(now w, RecvSigClose) \<in> set (trace w)" by auto
  next
    fix m w'
    assume "sigCloseAt e = None"
    then show "observeBlocks e m \<noteq> Exited w'" using exit [of m w'] by auto
  qed
qed

theorem observeBlocks_returns_only_on_sigClose_witness:
  "observeBlocks \<lparr>sigCloseAt = Some 50, ethSubscribe = (\<lambda>_. Succeeds 10 None),
       pick = (\<lambda>_. True)\<rparr> (Suc 0)
     = Exited \<lparr>sub = Some \<lparr>sid = 0, errAt = None\<rparr>, now = 50, calls = 1, selects = 1,
         trace = [(0, CallEthSubscribe), (50, RecvSigClose), (50, Unsubscribe 0),
           (50, LogNotice), (50, WgDone)]\<rparr>
   \<and> occurrences RecvSigClose [(0, CallEthSubscribe), (50, RecvSigClose), (50, Unsubscribe 0),
           (50, LogNotice), (50, WgDone)] = 1
   \<and> (\<forall>m w'. observeBlocks \<lparr>sigCloseAt = None, ethSubscribe = (\<lambda>_. Fails 3 ''connection refused''),
       pick = (\<lambda>_. True)\<rparr> m \<noteq> Exited w')"
  using observeBlocks_returns_only_on_sigClose [of "\<lparr>sigCloseAt = Some 50,
       ethSubscribe = (\<lambda>_. Succeeds 10 None), pick = (\<lambda>_. True)\<rparr>" "Suc 0"
       "\<lparr>sub = Some \<lparr>sid = 0, errAt = None\<rparr>, now = 50, calls = 1, selects = 1,
         trace = [(0, CallEthSubscribe), (50, RecvSigClose), (50, Unsubscribe 0),
           (50, LogNotice), (50, WgDone)]\<rparr>"]
    observeBlocks_returns_only_on_sigClose [of "\<lparr>sigCloseAt = None,
       ethSubscribe = (\<lambda>_. Fails 3 ''connection refused''), pick = (\<lambda>_. True)\<rparr>"]
  by (simp add: shutdown_while_subscribed)

subsection \<open>The pace of the retries\<close>








subsection \<open>Failed calls are retried\<close>

lemma tick_pos: "0 < axisHeadsObserverSubscribeTick"
  by (simp add: axisHeadsObserverSubscribeTick_def)

lemma attemptAt_mono: "i \<le> j \<Longrightarrow> attemptAt e i \<le> attemptAt e j"
  by (induction j) (auto simp: le_Suc_eq)

lemma open_until_mono: "open_until e t \<Longrightarrow> t' \<le> t \<Longrightarrow> open_until e t'"
  by (auto simp: open_until_def split: option.splits)

lemma select2_timer:
  "open_until e (t + d) \<Longrightarrow> select2 pk t (sigCloseAt e) (Some (t + d)) = Some (t + d, Second)"
  by (auto simp: open_until_def select2_def split: option.splits)

lemma select2_err:
  "open_until e (max t te) \<Longrightarrow>
     select2 pk t (sigCloseAt e) (Some te) = Some (max t te, Second)"
  by (auto simp: open_until_def select2_def split: option.splits)

lemma retry_iteration:
  assumes "sub w = None" "open_until e (now w + axisHeadsObserverSubscribeTick)"
  shows "iteration e w = assignSub (blockSubscription e
           (w\<lparr>now := now w + axisHeadsObserverSubscribeTick, selects := Suc (selects w),
              trace := trace w @ [(now w, NewTimer axisHeadsObserverSubscribeTick),
                (now w + axisHeadsObserverSubscribeTick, RecvTimer)]\<rparr>))"
  using assms
  by (simp add: iteration_def selectOn_def emit_def select2_timer)

lemma continue_0: "continue e 0 out = out"
  by (cases out) (simp_all add: continue_def)

lemma isFailsD: "isFails r \<Longrightarrow> \<exists>d err. r = Fails d err"
  by (cases r) (simp_all add: isFails_def)

lemma failing_SucD: "failing e (Suc k) \<Longrightarrow> failing e k \<and> (\<exists>d err. ethSubscribe e k = Fails d err)"
  by (cases "ethSubscribe e k") (auto simp: failing_def isFails_def)

lemma blockSubscription_first_event:
  "assignSub (blockSubscription e w) \<noteq> Exited w'"
  "\<exists>rest. trace (state_of (assignSub (blockSubscription e w)))
      = trace w @ (now w, CallEthSubscribe) # rest"
  by (cases "ethSubscribe e (calls w)";
      simp add: blockSubscription_def assignSub_def emit_def state_of_def)+

lemma blockSubscription_Fails:
  "ethSubscribe e (calls w) = Fails d err \<Longrightarrow>
     blockSubscription e w = Inr (None, w\<lparr>now := now w + d, calls := Suc (calls w),
       trace := trace w @ [(now w, CallEthSubscribe), (now w + d, LogCritical)]\<rparr>)"
  by (simp add: blockSubscription_def emit_def)

text \<open>
  As long as the calls fail and no shutdown is signalled, the worker goes from one call to
  the next through the same round.
\<close>

lemma observeBlocks_failing:
  assumes "failing e k" "open_until e (attemptAt e k)"
  shows "observeBlocks e (k + n) = continue e n (assignSub (blockSubscription e (beforeCall e k)))"
  using assms
proof (induction k arbitrary: n)
  case 0
  show ?case
    by (simp add: observeBlocks_def continue_def beforeCall_def start_def)
next
  case (Suc k)
  from Suc.prems(1) obtain d err where f: "failing e k" "ethSubscribe e k = Fails d err"
    using failing_SucD by blast
  have "attemptAt e k \<le> attemptAt e (Suc k)" by (rule attemptAt_mono) simp
  with Suc.prems(2) have "open_until e (attemptAt e k)"
    by (auto simp: open_until_def split: option.splits)
  with f(1) have "observeBlocks e (k + Suc n)
      = continue e (Suc n) (assignSub (blockSubscription e (beforeCall e k)))"
    by (rule Suc.IH)
  also have "assignSub (blockSubscription e (beforeCall e k))
      = Running \<lparr>sub = None, now = returnAt e k, calls = Suc k, selects = k,
          trace = concat (map (failedRound e) [0..<k])
            @ [(attemptAt e k, CallEthSubscribe), (returnAt e k, LogCritical)]\<rparr>"
    (is "_ = Running ?w")
    using f(2)
    by (simp add: blockSubscription_def assignSub_def beforeCall_def emit_def returnAt_def took_def)
  also have "continue e (Suc n) (Running ?w) = continue e n (iteration e ?w)"
    by (simp add: continue_def)
  also have "iteration e ?w = assignSub (blockSubscription e (beforeCall e (Suc k)))"
  proof -
    have "open_until e (now ?w + axisHeadsObserverSubscribeTick)"
      using Suc.prems(2) f(2) by (simp add: returnAt_def took_def)
    then have "iteration e ?w = assignSub (blockSubscription e
           (?w\<lparr>now := now ?w + axisHeadsObserverSubscribeTick, selects := Suc (selects ?w),
              trace := trace ?w @ [(now ?w, NewTimer axisHeadsObserverSubscribeTick),
                (now ?w + axisHeadsObserverSubscribeTick, RecvTimer)]\<rparr>))"
      by (intro retry_iteration) simp_all
    also have "?w\<lparr>now := now ?w + axisHeadsObserverSubscribeTick, selects := Suc (selects ?w),
              trace := trace ?w @ [(now ?w, NewTimer axisHeadsObserverSubscribeTick),
                (now ?w + axisHeadsObserverSubscribeTick, RecvTimer)]\<rparr> = beforeCall e (Suc k)"
      by (simp add: beforeCall_def failedRound_def returnAt_def)
    finally show ?thesis .
  qed
  finally show ?case by simp
qed

lemma attempts_failedRounds:
  "attempts (concat (map (failedRound e) [0..<k])) = map (attemptAt e) [0..<k]"
  by (induction k) (simp_all add: failedRound_def)

lemma timers_failedRounds:
  "timers (concat (map (failedRound e) [0..<k]))
     = map (\<lambda>i. (returnAt e i, axisHeadsObserverSubscribeTick)) [0..<k]"
  by (induction k) (simp_all add: failedRound_def)

text \<open>
  The same from any unsubscribed state of the loop, whatever came before (a failed first
  call, failed retries, or a stream failure), and at any point of a run.
\<close>

lemma failingFrom_SucD:
  "failingFrom e c (Suc k) \<Longrightarrow> failingFrom e c k \<and> (\<exists>d err. ethSubscribe e (c + k) = Fails d err)"
  by (cases "ethSubscribe e (c + k)") (auto simp: failingFrom_def isFails_def)

lemma loop_add: "loop e (n + m) w = continue e m (loop e n w)"
proof (induction n arbitrary: w)
  case 0
  show ?case by (simp add: continue_def)
next
  case (Suc n)
  show ?case by (cases "iteration e w") (simp_all add: Suc.IH continue_def)
qed

lemma observeBlocks_add: "observeBlocks e (n + m) = continue e m (observeBlocks e n)"
  by (cases "assignSub (blockSubscription e start)")
    (simp_all add: observeBlocks_def loop_add continue_def)

lemma loop_failing_retries:
  assumes "sub w = None" "failingFrom e (calls w) k"
    "open_until e (unsubscribedAt e (now w) (calls w) k)"
  shows "loop e (k + n) w = loop e n (afterRetries e w k)"
  using assms(2,3)
proof (induction k arbitrary: n)
  case 0
  show ?case by (simp add: afterRetries_def)
next
  case (Suc k)
  let ?v = "afterRetries e w k"
  from Suc.prems(1) obtain d err where f: "failingFrom e (calls w) k"
      "ethSubscribe e (calls w + k) = Fails d err"
    using failingFrom_SucD by blast
  have op: "open_until e (unsubscribedAt e (now w) (calls w) k + axisHeadsObserverSubscribeTick)"
    using Suc.prems(2) by (rule open_until_mono) simp
  then have "open_until e (unsubscribedAt e (now w) (calls w) k)"
    by (rule open_until_mono) simp
  with f(1) have "loop e (k + Suc n) w = loop e (Suc n) ?v" by (rule Suc.IH)
  also have "\<dots> = continue e n (iteration e ?v)" by (simp add: continue_def)
  also have "iteration e ?v = assignSub (blockSubscription e
           (?v\<lparr>now := now ?v + axisHeadsObserverSubscribeTick, selects := Suc (selects ?v),
              trace := trace ?v @ [(now ?v, NewTimer axisHeadsObserverSubscribeTick),
                (now ?v + axisHeadsObserverSubscribeTick, RecvTimer)]\<rparr>))"
    by (rule retry_iteration) (use assms(1) op in \<open>simp_all add: afterRetries_def\<close>)
  also have "\<dots> = Running (afterRetries e w (Suc k))"
    using f(2) assms(1)
    by (auto simp: blockSubscription_def assignSub_def emit_def afterRetries_def
        retryRound_def took_def intro!: worker.equality)
  finally show ?case by (simp add: continue_def)
qed

text \<open>
  A run in which the first call succeeds, the stream breaks at 100 ns and every later
  call fails: the worker after the first iteration.
\<close>

lemma failure_then_failing_reopens:
  "observeBlocks \<lparr>sigCloseAt = None,
       ethSubscribe = (\<lambda>i. if i = 0 then Succeeds 10 (Some 100)
                            else Fails 3 ''connection refused''),
       pick = (\<lambda>_. True)\<rparr> (Suc 0)
     = Running \<lparr>sub = None, now = 100, calls = 1, selects = 1,
         trace = [(0, CallEthSubscribe), (100, RecvErr 0), (100, LogError)]\<rparr>"
  by (simp add: run_defs)

text \<open>
  C3. A failed open attempt is absorbed and retried after the fixed delay, wherever in
  the life of the worker it happens and however many failed before it.
  \<^item> \<open>blockSubscription\<close> answers a failed \<open>EthSubscribe\<close> with a nil handle, logging the
    error at the critical level; at both places where it is called the worker then
    stands at the head of the loop, unsubscribed: the error goes nowhere else.
  \<^item> From any unsubscribed state of the loop, for every \<open>k\<close>: when the next \<open>k\<close> calls
    fail and no shutdown is signalled until the attempt after them is due, the worker does
    not return; its trace grows by \<open>k\<close> rounds (a new timer set to the tick, its expiry
    one tick later, the call, the critical log line), followed by a new timer set to the
    tick and, one tick later, the next call. The delay is the same in every round and
    \<open>k\<close> is arbitrary: no backoff, no attempt limit.
  \<^item> Every state that a run of \<open>observeBlocks\<close> reaches is continued by the loop, so the
    above holds at any point of a run, also after a stream failure.
  \<^item> From the start: when the first \<open>k\<close> calls fail, the trace is the \<open>k\<close> failed rounds
    followed by call \<open>k\<close>, one tick after call \<open>k - 1\<close> returned.
\<close>

theorem failed_open_retried_after_tick:
  "(\<forall>v d err. ethSubscribe e (calls v) = Fails d err \<longrightarrow>
      blockSubscription e v = Inr (None, v\<lparr>now := now v + d, calls := Suc (calls v),
        trace := trace v @ [(now v, CallEthSubscribe), (now v + d, LogCritical)]\<rparr>)
      \<and> assignSub (blockSubscription e v) = Running (v\<lparr>sub := None, now := now v + d,
        calls := Suc (calls v),
        trace := trace v @ [(now v, CallEthSubscribe), (now v + d, LogCritical)]\<rparr>))
   \<and> (sub w = None \<and> failingFrom e (calls w) k
        \<and> open_until e (unsubscribedAt e (now w) (calls w) k + axisHeadsObserverSubscribeTick)
      \<longrightarrow> (\<forall>w'. loop e (Suc k) w \<noteq> Exited w')
        \<and> (\<exists>rest. trace (state_of (loop e (Suc k) w))
              = trace w @ concat (map (retryRound e (now w) (calls w)) [0..<k])
                @ [(unsubscribedAt e (now w) (calls w) k,
                     NewTimer axisHeadsObserverSubscribeTick),
                   (unsubscribedAt e (now w) (calls w) k + axisHeadsObserverSubscribeTick,
                     RecvTimer),
                   (unsubscribedAt e (now w) (calls w) k + axisHeadsObserverSubscribeTick,
                     CallEthSubscribe)] @ rest))
   \<and> (observeBlocks e n = Running w \<longrightarrow> (\<forall>m. observeBlocks e (n + m) = loop e m w))
   \<and> (failing e k \<and> open_until e (attemptAt e k)
      \<longrightarrow> (\<forall>w'. observeBlocks e k \<noteq> Exited w')
        \<and> (\<exists>rest. trace (state_of (observeBlocks e k))
              = concat (map (failedRound e) [0..<k]) @ (attemptAt e k, CallEthSubscribe) # rest))"
proof (intro conjI allI impI)
  fix v :: worker and d err
  assume f: "ethSubscribe e (calls v) = Fails d err"
  then show "blockSubscription e v = Inr (None, v\<lparr>now := now v + d, calls := Suc (calls v),
        trace := trace v @ [(now v, CallEthSubscribe), (now v + d, LogCritical)]\<rparr>)"
    by (rule blockSubscription_Fails)
  then show "assignSub (blockSubscription e v) = Running (v\<lparr>sub := None, now := now v + d,
        calls := Suc (calls v),
        trace := trace v @ [(now v, CallEthSubscribe), (now v + d, LogCritical)]\<rparr>)"
    by (simp add: assignSub_def)
next
  assume a: "sub w = None \<and> failingFrom e (calls w) k
        \<and> open_until e (unsubscribedAt e (now w) (calls w) k + axisHeadsObserverSubscribeTick)"
  let ?v = "afterRetries e w k"
  let ?t = "unsubscribedAt e (now w) (calls w) k"
  let ?v2 = "?v\<lparr>now := now ?v + axisHeadsObserverSubscribeTick, selects := Suc (selects ?v),
              trace := trace ?v @ [(now ?v, NewTimer axisHeadsObserverSubscribeTick),
                (now ?v + axisHeadsObserverSubscribeTick, RecvTimer)]\<rparr>"
  from a have "open_until e ?t" by (auto elim: open_until_mono)
  with a have "loop e (k + Suc 0) w = loop e (Suc 0) ?v" by (intro loop_failing_retries) simp_all
  also have "\<dots> = continue e 0 (iteration e ?v)" by (simp add: continue_def)
  also have "iteration e ?v = assignSub (blockSubscription e ?v2)"
    by (rule retry_iteration) (use a in \<open>simp_all add: afterRetries_def\<close>)
  finally have run: "loop e (Suc k) w = assignSub (blockSubscription e ?v2)"
    by (simp add: continue_0)
  show "loop e (Suc k) w \<noteq> Exited w'" for w'
    unfolding run by (rule blockSubscription_first_event)
  have "\<exists>rest. trace (state_of (loop e (Suc k) w))
      = trace ?v2 @ (now ?v2, CallEthSubscribe) # rest"
    unfolding run by (rule blockSubscription_first_event)
  then show "\<exists>rest. trace (state_of (loop e (Suc k) w))
              = trace w @ concat (map (retryRound e (now w) (calls w)) [0..<k])
                @ [(?t, NewTimer axisHeadsObserverSubscribeTick),
                   (?t + axisHeadsObserverSubscribeTick, RecvTimer),
                   (?t + axisHeadsObserverSubscribeTick, CallEthSubscribe)] @ rest"
    by (simp add: afterRetries_def)
next
  fix m
  assume "observeBlocks e n = Running w"
  then show "observeBlocks e (n + m) = loop e m w"
    by (simp add: observeBlocks_add continue_def)
next
  assume a: "failing e k \<and> open_until e (attemptAt e k)"
  then have "observeBlocks e (k + 0)
      = continue e 0 (assignSub (blockSubscription e (beforeCall e k)))"
    by (intro observeBlocks_failing) simp_all
  then have ob: "observeBlocks e k = assignSub (blockSubscription e (beforeCall e k))"
    by (simp add: continue_0)
  show "observeBlocks e k \<noteq> Exited w'" for w'
    unfolding ob by (rule blockSubscription_first_event)
  have "\<exists>rest. trace (state_of (observeBlocks e k))
      = trace (beforeCall e k) @ (now (beforeCall e k), CallEthSubscribe) # rest"
    unfolding ob by (rule blockSubscription_first_event)
  then show "\<exists>rest. trace (state_of (observeBlocks e k))
      = concat (map (failedRound e) [0..<k]) @ (attemptAt e k, CallEthSubscribe) # rest"
    by (simp add: beforeCall_def)
qed

text \<open>
  Instances: a failing first call; two failing re-opens after a stream failure (calls 1
  and 2 of the run above) and the third re-open that follows them; two failing calls
  from the start.
\<close>

theorem failed_open_retried_after_tick_witness:
  "blockSubscription \<lparr>sigCloseAt = None, ethSubscribe = (\<lambda>_. Fails 3 ''connection refused''),
       pick = (\<lambda>_. True)\<rparr> start
     = Inr (None, \<lparr>sub = None, now = 3, calls = 1, selects = 0,
         trace = [(0, CallEthSubscribe), (3, LogCritical)]\<rparr>)
   \<and> failingFrom \<lparr>sigCloseAt = None,
       ethSubscribe = (\<lambda>i. if i = 0 then Succeeds 10 (Some 100)
                            else Fails 3 ''connection refused''),
       pick = (\<lambda>_. True)\<rparr> 1 (Suc (Suc 0))
   \<and> (\<exists>rest. trace (state_of (observeBlocks \<lparr>sigCloseAt = None,
         ethSubscribe = (\<lambda>i. if i = 0 then Succeeds 10 (Some 100)
                              else Fails 3 ''connection refused''),
         pick = (\<lambda>_. True)\<rparr> (Suc 0 + Suc (Suc (Suc 0)))))
       = [(0, CallEthSubscribe), (100, RecvErr 0), (100, LogError),
          (100, NewTimer 30000000000), (30000000100, RecvTimer),
          (30000000100, CallEthSubscribe), (30000000103, LogCritical),
          (30000000103, NewTimer 30000000000), (60000000103, RecvTimer),
          (60000000103, CallEthSubscribe), (60000000106, LogCritical),
          (60000000106, NewTimer 30000000000), (90000000106, RecvTimer),
          (90000000106, CallEthSubscribe)] @ rest)
   \<and> failing \<lparr>sigCloseAt = None, ethSubscribe = (\<lambda>_. Fails 3 ''connection refused''),
       pick = (\<lambda>_. True)\<rparr> (Suc (Suc 0))
   \<and> (\<exists>rest. trace (state_of (observeBlocks \<lparr>sigCloseAt = None,
         ethSubscribe = (\<lambda>_. Fails 3 ''connection refused''), pick = (\<lambda>_. True)\<rparr> (Suc (Suc 0))))
       = [(0, CallEthSubscribe), (3, LogCritical), (3, NewTimer 30000000000),
           (30000000003, RecvTimer), (30000000003, CallEthSubscribe),
           (30000000006, LogCritical), (30000000006, NewTimer 30000000000),
           (60000000006, RecvTimer), (60000000006, CallEthSubscribe)] @ rest)"
proof -
  let ?e = "\<lparr>sigCloseAt = None, ethSubscribe = (\<lambda>_. Fails 3 ''connection refused''),
       pick = (\<lambda>_. True)\<rparr>"
  let ?e1 = "\<lparr>sigCloseAt = None,
       ethSubscribe = (\<lambda>i. if i = 0 then Succeeds 10 (Some 100)
                            else Fails 3 ''connection refused''),
       pick = (\<lambda>_. True)\<rparr>"
  let ?w1 = "\<lparr>sub = None, now = 100, calls = 1, selects = 1,
         trace = [(0, CallEthSubscribe), (100, RecvErr 0), (100, LogError)]\<rparr>"
  note thm1 = failed_open_retried_after_tick [of ?e1 ?w1 "Suc (Suc 0)" "Suc 0"]
  note thm2 = failed_open_retried_after_tick [of ?e start "Suc (Suc 0)" 0]
  have 1: "blockSubscription ?e start
     = Inr (None, \<lparr>sub = None, now = 3, calls = 1, selects = 0,
         trace = [(0, CallEthSubscribe), (3, LogCritical)]\<rparr>)"
  proof -
    have "ethSubscribe ?e (calls start) = Fails 3 ''connection refused''" by simp
    with thm2 have "blockSubscription ?e start = Inr (None, start\<lparr>now := now start + 3,
        calls := Suc (calls start),
        trace := trace start @ [(now start, CallEthSubscribe), (now start + 3, LogCritical)]\<rparr>)"
      by blast
    then show ?thesis by (simp add: start_def)
  qed
  have 2: "failingFrom ?e1 1 (Suc (Suc 0))" by (simp add: failingFrom_def isFails_def)
  have 3: "\<exists>rest. trace (state_of (observeBlocks ?e1 (Suc 0 + Suc (Suc (Suc 0)))))
       = [(0, CallEthSubscribe), (100, RecvErr 0), (100, LogError),
          (100, NewTimer 30000000000), (30000000100, RecvTimer),
          (30000000100, CallEthSubscribe), (30000000103, LogCritical),
          (30000000103, NewTimer 30000000000), (60000000103, RecvTimer),
          (60000000103, CallEthSubscribe), (60000000106, LogCritical),
          (60000000106, NewTimer 30000000000), (90000000106, RecvTimer),
          (90000000106, CallEthSubscribe)] @ rest"
  proof -
    have run: "observeBlocks ?e1 (Suc 0 + Suc (Suc (Suc 0))) = loop ?e1 (Suc (Suc (Suc 0))) ?w1"
      using thm1 failure_then_failing_reopens by blast
    have pre: "sub ?w1 = None \<and> failingFrom ?e1 (calls ?w1) (Suc (Suc 0))
        \<and> open_until ?e1 (unsubscribedAt ?e1 (now ?w1) (calls ?w1) (Suc (Suc 0))
             + axisHeadsObserverSubscribeTick)"
      using 2 by (simp add: open_until_def)
    with thm1 have "\<exists>rest. trace (state_of (loop ?e1 (Suc (Suc (Suc 0))) ?w1))
              = trace ?w1 @ concat (map (retryRound ?e1 (now ?w1) (calls ?w1)) [0..<Suc (Suc 0)])
                @ [(unsubscribedAt ?e1 (now ?w1) (calls ?w1) (Suc (Suc 0)),
                     NewTimer axisHeadsObserverSubscribeTick),
                   (unsubscribedAt ?e1 (now ?w1) (calls ?w1) (Suc (Suc 0))
                      + axisHeadsObserverSubscribeTick, RecvTimer),
                   (unsubscribedAt ?e1 (now ?w1) (calls ?w1) (Suc (Suc 0))
                      + axisHeadsObserverSubscribeTick, CallEthSubscribe)] @ rest"
      by blast
    then show ?thesis
      unfolding run
      by (simp add: retryRound_def took_def axisHeadsObserverSubscribeTick_def del: loop.simps)
  qed
  have 4: "failing ?e (Suc (Suc 0))" by (simp add: failing_def isFails_def)
  have 5: "\<exists>rest. trace (state_of (observeBlocks ?e (Suc (Suc 0))))
       = [(0, CallEthSubscribe), (3, LogCritical), (3, NewTimer 30000000000),
           (30000000003, RecvTimer), (30000000003, CallEthSubscribe),
           (30000000006, LogCritical), (30000000006, NewTimer 30000000000),
           (60000000006, RecvTimer), (60000000006, CallEthSubscribe)] @ rest"
  proof -
    have "failing ?e (Suc (Suc 0)) \<and> open_until ?e (attemptAt ?e (Suc (Suc 0)))"
      using 4 by (simp add: open_until_def)
    with thm2 have "\<exists>rest. trace (state_of (observeBlocks ?e (Suc (Suc 0))))
              = concat (map (failedRound ?e) [0..<Suc (Suc 0)])
                @ (attemptAt ?e (Suc (Suc 0)), CallEthSubscribe) # rest"
      by blast
    then show ?thesis
      by (simp add: failedRound_def returnAt_def took_def axisHeadsObserverSubscribeTick_def)
  qed
  from 1 2 3 4 5 show ?thesis by (intro conjI)
qed

text \<open>
  C7. When \<open>EthSubscribe\<close> fails \<open>k\<close> times and then succeeds, and no shutdown is
  signalled, the worker is subscribed after exactly \<open>k\<close> retries: after \<open>k\<close> iterations
  it holds the handle of call \<open>k\<close>, having made \<open>k + 1\<close> calls and created \<open>k\<close>
  timers, each call after the first one tick after the call before it returned; and with
  a stream that never fails it stays in the subscribed wait from then on.
\<close>

theorem subscribed_after_k_retries:
  assumes "failing e k" and "ethSubscribe e k = Succeeds d failure" and "sigCloseAt e = None"
  shows "let w = \<lparr>sub = Some \<lparr>sid = k, errAt = failure\<rparr>, now = attemptAt e k + d,
                  calls = Suc k, selects = k,
                  trace = concat (map (failedRound e) [0..<k])
                            @ [(attemptAt e k, CallEthSubscribe)]\<rparr>
         in observeBlocks e k = Running w
          \<and> attempts (trace w) = map (attemptAt e) [0..<Suc k]
          \<and> timers (trace w)
               = map (\<lambda>i. (returnAt e i, axisHeadsObserverSubscribeTick)) [0..<k]
          \<and> (\<forall>i<k. attemptAt e (Suc i) = returnAt e i + axisHeadsObserverSubscribeTick)
          \<and> (failure = None \<longrightarrow> (\<forall>n. observeBlocks e (k + Suc n) = Blocked w))"
proof -
  let ?w = "\<lparr>sub = Some \<lparr>sid = k, errAt = failure\<rparr>, now = attemptAt e k + d,
             calls = Suc k, selects = k,
             trace = concat (map (failedRound e) [0..<k])
                       @ [(attemptAt e k, CallEthSubscribe)]\<rparr>"
  have op: "open_until e (attemptAt e k)" using assms(3) by (simp add: open_until_def)
  have call: "assignSub (blockSubscription e (beforeCall e k)) = Running ?w"
    using assms(2)
    by (simp add: blockSubscription_def assignSub_def beforeCall_def emit_def)
  have run: "observeBlocks e (k + n) = continue e n (Running ?w)" for n
    using observeBlocks_failing [OF assms(1) op, of n] by (simp add: call)
  have ob: "observeBlocks e k = Running ?w"
    using run [of 0] by (simp add: continue_0)
  have stay: "observeBlocks e (k + Suc n) = Blocked ?w" if "failure = None" for n
  proof -
    have "iteration e ?w = Blocked ?w"
      using that assms(3) by (simp add: iteration_def selectOn_def select2_def)
    then show ?thesis using run [of "Suc n"] by (simp add: continue_def)
  qed
  have "attempts (trace ?w) = map (attemptAt e) [0..<Suc k]"
    by (simp add: attempts_failedRounds)
  moreover have "timers (trace ?w)
      = map (\<lambda>i. (returnAt e i, axisHeadsObserverSubscribeTick)) [0..<k]"
    by (simp add: timers_failedRounds)
  moreover have "\<forall>i<k. attemptAt e (Suc i) = returnAt e i + axisHeadsObserverSubscribeTick"
    by (simp add: returnAt_def)
  ultimately show ?thesis using ob stay by (simp only: Let_def) blast
qed

theorem subscribed_after_k_retries_witness:
  "failing \<lparr>sigCloseAt = None,
       ethSubscribe = (\<lambda>i. if i < 2 then Fails 3 ''connection refused'' else Succeeds 10 None),
       pick = (\<lambda>_. True)\<rparr> (Suc (Suc 0))
   \<and> observeBlocks \<lparr>sigCloseAt = None,
       ethSubscribe = (\<lambda>i. if i < 2 then Fails 3 ''connection refused'' else Succeeds 10 None),
       pick = (\<lambda>_. True)\<rparr> (Suc (Suc 0))
     = Running \<lparr>sub = Some \<lparr>sid = 2, errAt = None\<rparr>, now = 60000000016, calls = 3,
         selects = 2,
         trace = [(0, CallEthSubscribe), (3, LogCritical), (3, NewTimer 30000000000),
           (30000000003, RecvTimer), (30000000003, CallEthSubscribe),
           (30000000006, LogCritical), (30000000006, NewTimer 30000000000),
           (60000000006, RecvTimer), (60000000006, CallEthSubscribe)]\<rparr>"
proof -
  let ?e = "\<lparr>sigCloseAt = None,
       ethSubscribe = (\<lambda>i. if i < 2 then Fails 3 ''connection refused'' else Succeeds 10 None),
       pick = (\<lambda>_. True)\<rparr>"
  have f: "failing ?e (Suc (Suc 0))" by (simp add: failing_def isFails_def)
  have s: "ethSubscribe ?e (Suc (Suc 0)) = Succeeds 10 None" by simp
  have c: "sigCloseAt ?e = None" by simp
  show ?thesis
    using subscribed_after_k_retries [OF f s c] f
    by (simp add: Let_def failedRound_def returnAt_def took_def axisHeadsObserverSubscribeTick_def)
qed

subsection \<open>After a stream failure\<close>

lemma stream_failure_iteration:
  assumes "sub w = Some s" "errAt s = Some te" "open_until e (max (now w) te)"
  shows "iteration e w = Running (w\<lparr>sub := None, now := max (now w) te,
            selects := Suc (selects w),
            trace := trace w @ [(max (now w) te, RecvErr (sid s)),
              (max (now w) te, LogError)]\<rparr>)"
  using assms
  by (auto simp: iteration_def selectOn_def emit_def select2_err intro!: worker.equality)

text \<open>
  C4. When the stream of the handle in \<open>sub\<close> fails (and no shutdown is signalled in
  the meantime), the worker receives the error, logs it and drops the handle: it is
  unsubscribed, and \<open>Unsubscribe\<close> is not called. In the next iteration it creates a
  timer, waits the full tick, and only then calls \<open>EthSubscribe\<close> again.
\<close>

theorem stream_failure_waits_one_tick:
  assumes "sub w = Some s" and "errAt s = Some te"
    and "open_until e (max (now w) te + axisHeadsObserverSubscribeTick)"
  shows "iteration e w = Running (w\<lparr>sub := None, now := max (now w) te,
            selects := Suc (selects w),
            trace := trace w @ [(max (now w) te, RecvErr (sid s)),
              (max (now w) te, LogError)]\<rparr>)
       \<and> (\<forall>w'. loop e (Suc (Suc 0)) w \<noteq> Exited w')
       \<and> (\<exists>rest. trace (state_of (loop e (Suc (Suc 0)) w))
            = trace w @ [(max (now w) te, RecvErr (sid s)),
                (max (now w) te, LogError),
                (max (now w) te, NewTimer axisHeadsObserverSubscribeTick),
                (max (now w) te + axisHeadsObserverSubscribeTick, RecvTimer),
                (max (now w) te + axisHeadsObserverSubscribeTick, CallEthSubscribe)] @ rest)"
proof -
  let ?t = "max (now w) te"
  let ?w1 = "w\<lparr>sub := None, now := ?t, selects := Suc (selects w),
            trace := trace w @ [(?t, RecvErr (sid s)), (?t, LogError)]\<rparr>"
  let ?w2 = "?w1\<lparr>now := now ?w1 + axisHeadsObserverSubscribeTick, selects := Suc (selects ?w1),
              trace := trace ?w1 @ [(now ?w1, NewTimer axisHeadsObserverSubscribeTick),
                (now ?w1 + axisHeadsObserverSubscribeTick, RecvTimer)]\<rparr>"
  have "open_until e ?t" using assms(3) by (rule open_until_mono) simp
  with assms(1,2) have first: "iteration e w = Running ?w1" by (rule stream_failure_iteration)
  have second: "iteration e ?w1 = assignSub (blockSubscription e ?w2)"
    by (rule retry_iteration) (use assms(3) in simp_all)
  have two: "loop e (Suc (Suc 0)) w = assignSub (blockSubscription e ?w2)"
    by (cases "assignSub (blockSubscription e ?w2)") (simp_all add: first second)
  have "\<exists>rest. trace (state_of (loop e (Suc (Suc 0)) w))
      = trace ?w2 @ (now ?w2, CallEthSubscribe) # rest"
    unfolding two by (rule blockSubscription_first_event)
  moreover have "\<forall>w'. loop e (Suc (Suc 0)) w \<noteq> Exited w'"
    unfolding two by (simp add: blockSubscription_first_event)
  ultimately show ?thesis using first by simp
qed

theorem stream_failure_waits_one_tick_witness:
  "open_until \<lparr>sigCloseAt = None, ethSubscribe = (\<lambda>_. Succeeds 10 None), pick = (\<lambda>_. True)\<rparr>
     (max 10 100 + axisHeadsObserverSubscribeTick)
   \<and> iteration \<lparr>sigCloseAt = None, ethSubscribe = (\<lambda>_. Succeeds 10 None), pick = (\<lambda>_. True)\<rparr>
       \<lparr>sub = Some \<lparr>sid = 0, errAt = Some 100\<rparr>, now = 10, calls = 1, selects = 0,
        trace = [(0, CallEthSubscribe)]\<rparr>
     = Running \<lparr>sub = None, now = 100, calls = 1, selects = 1,
        trace = [(0, CallEthSubscribe), (100, RecvErr 0), (100, LogError)]\<rparr>
   \<and> (\<exists>rest. trace (state_of (loop \<lparr>sigCloseAt = None, ethSubscribe = (\<lambda>_. Succeeds 10 None),
           pick = (\<lambda>_. True)\<rparr> (Suc (Suc 0))
         \<lparr>sub = Some \<lparr>sid = 0, errAt = Some 100\<rparr>, now = 10, calls = 1, selects = 0,
          trace = [(0, CallEthSubscribe)]\<rparr>))
       = [(0, CallEthSubscribe), (100, RecvErr 0), (100, LogError),
          (100, NewTimer 30000000000), (30000000100, RecvTimer),
          (30000000100, CallEthSubscribe)] @ rest)"
proof -
  let ?e = "\<lparr>sigCloseAt = None, ethSubscribe = (\<lambda>_. Succeeds 10 None), pick = (\<lambda>_. True)\<rparr>"
  let ?s = "\<lparr>sid = 0, errAt = Some 100\<rparr>"
  let ?w = "\<lparr>sub = Some ?s, now = 10, calls = 1, selects = 0, trace = [(0, CallEthSubscribe)]\<rparr>"
  have a: "sub ?w = Some ?s" by simp
  have b: "errAt ?s = Some 100" by simp
  have c: "open_until ?e (max (now ?w) 100 + axisHeadsObserverSubscribeTick)"
    by (simp add: open_until_def)
  show ?thesis
    using stream_failure_waits_one_tick [OF a b c] c
    by (simp add: axisHeadsObserverSubscribeTick_def del: loop.simps)
qed

subsection \<open>Shutdown\<close>

lemma timer_wait_shutdown:
  assumes "sub w = None" "sigCloseAt e = Some tc" "tc < now w + axisHeadsObserverSubscribeTick"
  shows "iteration e w = Exited (w\<lparr>now := max (now w) tc, selects := Suc (selects w),
          trace := trace w @ [(now w, NewTimer axisHeadsObserverSubscribeTick),
            (max (now w) tc, RecvSigClose), (max (now w) tc, LogNotice),
            (max (now w) tc, WgDone)]\<rparr>)"
proof -
  have "select2 (pick e (selects w)) (now w) (Some tc)
      (Some (now w + axisHeadsObserverSubscribeTick)) = Some (max (now w) tc, First)"
    using assms(3) tick_pos by (intro select2_close_first) simp
  then show ?thesis using assms(1,2)
    by (auto simp: iteration_def selectOn_def emit_def deferred_def intro!: worker.equality)
qed

lemma subscribed_wait_shutdown:
  assumes "sub w = Some s" "sigCloseAt e = Some tc"
    "case errAt s of None \<Rightarrow> True
     | Some te \<Rightarrow> max (now w) tc < max (now w) te
         \<or> (max (now w) tc = max (now w) te \<and> pick e (selects w))"
  shows "iteration e w = Exited (w\<lparr>now := max (now w) tc, selects := Suc (selects w),
          trace := trace w @ [(max (now w) tc, RecvSigClose),
            (max (now w) tc, Unsubscribe (sid s)), (max (now w) tc, LogNotice),
            (max (now w) tc, WgDone)]\<rparr>)"
proof -
  have "select2 (pick e (selects w)) (now w) (Some tc) (errAt s) = Some (max (now w) tc, First)"
    using assms(3)
    by (cases "errAt s") (auto simp: select2_close_only select2_close_first select2_tie)
  then show ?thesis using assms(1,2)
    by (auto simp: iteration_def selectOn_def emit_def deferred_def intro!: worker.equality)
qed

lemma subscribed_wait_error_picked:
  assumes "sub w = Some s" "sigCloseAt e = Some tc" "errAt s = Some te"
    "max (now w) tc = max (now w) te" "\<not> pick e (selects w)"
  shows "iteration e w = Running (w\<lparr>sub := None, now := max (now w) tc,
            selects := Suc (selects w),
            trace := trace w @ [(max (now w) tc, RecvErr (sid s)),
              (max (now w) tc, LogError)]\<rparr>)"
proof -
  have "select2 (pick e (selects w)) (now w) (Some tc) (errAt s) = Some (max (now w) tc, Second)"
    using assms(3-5) by (simp add: select2_tie)
  then show ?thesis using assms(1,2)
    by (auto simp: iteration_def selectOn_def emit_def intro!: worker.equality)
qed

text \<open>
  C6 (as stated: once the shutdown signal has fired, the very next \<open>select\<close> observes
  \<open>sigClose\<close> and the worker returns) fails in the subscribed wait when the stream error is
  pending as well. Here the signal fires at 5 ns, during the first call; the call returns
  at 10 ns with a subscription whose stream breaks at once; at the first \<open>select\<close> both
  cases are ready and the error case is picked: after that \<open>select\<close> the worker is still
  running, unsubscribed.
\<close>

theorem shutdown_race_counterexample:
  "sigCloseAt \<lparr>sigCloseAt = Some 5, ethSubscribe = (\<lambda>_. Succeeds 10 (Some 10)),
       pick = (\<lambda>_. False)\<rparr> = Some 5
   \<and> observeBlocks \<lparr>sigCloseAt = Some 5, ethSubscribe = (\<lambda>_. Succeeds 10 (Some 10)),
       pick = (\<lambda>_. False)\<rparr> (Suc 0)
     = Running \<lparr>sub = None, now = 10, calls = 1, selects = 1,
         trace = [(0, CallEthSubscribe), (10, RecvErr 0), (10, LogError)]\<rparr>"
  by (simp add: run_defs)

text \<open>
  C6, amended. A \<open>select\<close> at which the shutdown signal is ready before the other channel
  takes \<open>sigClose\<close>, and the worker returns through the deferred cleanup: always in the
  unsubscribed wait when the signal fires before the timer (so whenever it has fired
  already, the timer being fresh), and in the subscribed wait when the signal fires before
  the stream error, or with it and \<open>select\<close> picks \<open>sigClose\<close>. Whatever \<open>select\<close> picks,
  once the signal has fired the worker returns within two \<open>select\<close> statements, without
  time passing, without another \<open>EthSubscribe\<close> call, calling \<open>wg.Done\<close> once. When
  the stream error is pending too and \<open>select\<close> picks it, the worker logs the error,
  drops the handle without calling \<open>Unsubscribe\<close>, creates a timer and returns at that
  second \<open>select\<close>.
\<close>

theorem shutdown_within_two_selects:
  "(sub w = None \<and> sigCloseAt e = Some tc \<and> tc < now w + axisHeadsObserverSubscribeTick \<longrightarrow>
      iteration e w = Exited (w\<lparr>now := max (now w) tc, selects := Suc (selects w),
          trace := trace w @ [(now w, NewTimer axisHeadsObserverSubscribeTick),
            (max (now w) tc, RecvSigClose), (max (now w) tc, LogNotice),
            (max (now w) tc, WgDone)]\<rparr>))
   \<and> (sub w = Some s \<and> sigCloseAt e = Some tc
       \<and> (case errAt s of None \<Rightarrow> True
           | Some te \<Rightarrow> max (now w) tc < max (now w) te
               \<or> (max (now w) tc = max (now w) te \<and> pick e (selects w))) \<longrightarrow>
      iteration e w = Exited (w\<lparr>now := max (now w) tc, selects := Suc (selects w),
          trace := trace w @ [(max (now w) tc, RecvSigClose),
            (max (now w) tc, Unsubscribe (sid s)), (max (now w) tc, LogNotice),
            (max (now w) tc, WgDone)]\<rparr>))
   \<and> (sigCloseAt e = Some tc \<and> tc \<le> now w \<longrightarrow>
      (\<exists>w'. loop e (Suc (Suc n)) w = Exited w' \<and> now w' = now w \<and> calls w' = calls w
          \<and> occurrences WgDone (trace w') = occurrences WgDone (trace w) + 1))
   \<and> (sub w = Some s \<and> sigCloseAt e = Some tc \<and> tc \<le> now w
       \<and> errAt s = Some te \<and> te \<le> now w \<and> \<not> pick e (selects w) \<longrightarrow>
      loop e (Suc (Suc n)) w = Exited (w\<lparr>sub := None, selects := Suc (Suc (selects w)),
          trace := trace w @ [(now w, RecvErr (sid s)), (now w, LogError),
            (now w, NewTimer axisHeadsObserverSubscribeTick),
            (now w, RecvSigClose), (now w, LogNotice), (now w, WgDone)]\<rparr>))"
proof (intro conjI impI)
  assume r: "sub w = Some s \<and> sigCloseAt e = Some tc \<and> tc \<le> now w
       \<and> errAt s = Some te \<and> te \<le> now w \<and> \<not> pick e (selects w)"
  then have m: "max (now w) tc = now w" "max (now w) tc = max (now w) te" by simp_all
  let ?v = "w\<lparr>sub := None, now := max (now w) tc, selects := Suc (selects w),
            trace := trace w @ [(max (now w) tc, RecvErr (sid s)),
              (max (now w) tc, LogError)]\<rparr>"
  have first: "iteration e w = Running ?v"
    using r m(2) by (simp add: subscribed_wait_error_picked)
  have "tc < now ?v + axisHeadsObserverSubscribeTick" using r tick_pos by simp
  then have "iteration e ?v = Exited (?v\<lparr>now := max (now ?v) tc,
          selects := Suc (selects ?v),
          trace := trace ?v @ [(now ?v, NewTimer axisHeadsObserverSubscribeTick),
            (max (now ?v) tc, RecvSigClose), (max (now ?v) tc, LogNotice),
            (max (now ?v) tc, WgDone)]\<rparr>)"
    using r by (intro timer_wait_shutdown) simp_all
  then show "loop e (Suc (Suc n)) w = Exited (w\<lparr>sub := None,
          selects := Suc (Suc (selects w)),
          trace := trace w @ [(now w, RecvErr (sid s)), (now w, LogError),
            (now w, NewTimer axisHeadsObserverSubscribeTick),
            (now w, RecvSigClose), (now w, LogNotice), (now w, WgDone)]\<rparr>)"
    using first m(1) by (auto intro!: worker.equality)
next
  assume "sub w = None \<and> sigCloseAt e = Some tc \<and> tc < now w + axisHeadsObserverSubscribeTick"
  then show "iteration e w = Exited (w\<lparr>now := max (now w) tc, selects := Suc (selects w),
          trace := trace w @ [(now w, NewTimer axisHeadsObserverSubscribeTick),
            (max (now w) tc, RecvSigClose), (max (now w) tc, LogNotice),
            (max (now w) tc, WgDone)]\<rparr>)"
    by (simp add: timer_wait_shutdown)
next
  assume "sub w = Some s \<and> sigCloseAt e = Some tc
       \<and> (case errAt s of None \<Rightarrow> True
           | Some te \<Rightarrow> max (now w) tc < max (now w) te
               \<or> (max (now w) tc = max (now w) te \<and> pick e (selects w)))"
  then show "iteration e w = Exited (w\<lparr>now := max (now w) tc, selects := Suc (selects w),
          trace := trace w @ [(max (now w) tc, RecvSigClose),
            (max (now w) tc, Unsubscribe (sid s)), (max (now w) tc, LogNotice),
            (max (now w) tc, WgDone)]\<rparr>)"
    by (simp add: subscribed_wait_shutdown)
next
  assume a: "sigCloseAt e = Some tc \<and> tc \<le> now w"
  then have m: "max (now w) tc = now w" by simp
  let ?goal = "\<lambda>out. \<exists>w'. out = Exited w' \<and> now w' = now w \<and> calls w' = calls w
          \<and> occurrences WgDone (trace w') = occurrences WgDone (trace w) + 1"
  have unsub: "?goal (iteration e v)"
    if "sub v = None" "now v = now w" "calls v = calls w"
      "occurrences WgDone (trace v) = occurrences WgDone (trace w)" for v
  proof -
    have "tc < now v + axisHeadsObserverSubscribeTick" using that(2) a tick_pos by simp
    with that(1) a have "iteration e v = Exited (v\<lparr>now := max (now v) tc,
          selects := Suc (selects v),
          trace := trace v @ [(now v, NewTimer axisHeadsObserverSubscribeTick),
            (max (now v) tc, RecvSigClose), (max (now v) tc, LogNotice),
            (max (now v) tc, WgDone)]\<rparr>)"
      by (simp add: timer_wait_shutdown)
    then show ?thesis using that(2-4) m by simp
  qed
  have "?goal (iteration e w)
      \<or> (\<exists>v. iteration e w = Running v \<and> ?goal (iteration e v))"
  proof (cases "sub w")
    case None
    then show ?thesis using unsub [of w] by simp
  next
    case (Some s')
    show ?thesis
    proof (cases "case errAt s' of None \<Rightarrow> True
           | Some te \<Rightarrow> max (now w) tc < max (now w) te
               \<or> (max (now w) tc = max (now w) te \<and> pick e (selects w))")
      case True
      with Some a have "iteration e w = Exited (w\<lparr>now := max (now w) tc,
          selects := Suc (selects w),
          trace := trace w @ [(max (now w) tc, RecvSigClose),
            (max (now w) tc, Unsubscribe (sid s')), (max (now w) tc, LogNotice),
            (max (now w) tc, WgDone)]\<rparr>)"
        by (simp add: subscribed_wait_shutdown)
      then show ?thesis using m by simp
    next
      case False
      then obtain te where te: "errAt s' = Some te" "max (now w) tc = max (now w) te"
          "\<not> pick e (selects w)"
        using m by (cases "errAt s'") (auto simp: max_def split: if_splits)
      let ?v = "w\<lparr>sub := None, now := max (now w) tc, selects := Suc (selects w),
            trace := trace w @ [(max (now w) tc, RecvErr (sid s')),
              (max (now w) tc, LogError)]\<rparr>"
      have "iteration e w = Running ?v"
        using Some a te by (simp add: subscribed_wait_error_picked)
      moreover have "?goal (iteration e ?v)" by (rule unsub) (simp_all add: m)
      ultimately show ?thesis by blast
    qed
  qed
  then show "\<exists>w'. loop e (Suc (Suc n)) w = Exited w' \<and> now w' = now w \<and> calls w' = calls w
          \<and> occurrences WgDone (trace w') = occurrences WgDone (trace w) + 1"
    by auto
qed

theorem shutdown_within_two_selects_witness:
  "iteration \<lparr>sigCloseAt = Some 5, ethSubscribe = (\<lambda>_. Fails 3 ''connection refused''),
       pick = (\<lambda>_. False)\<rparr>
       \<lparr>sub = None, now = 10, calls = 1, selects = 0,
        trace = [(0, CallEthSubscribe), (10, LogCritical)]\<rparr>
     = Exited \<lparr>sub = None, now = 10, calls = 1, selects = 1,
        trace = [(0, CallEthSubscribe), (10, LogCritical), (10, NewTimer 30000000000),
          (10, RecvSigClose), (10, LogNotice), (10, WgDone)]\<rparr>
   \<and> iteration \<lparr>sigCloseAt = Some 50, ethSubscribe = (\<lambda>_. Succeeds 10 None),
       pick = (\<lambda>_. False)\<rparr>
       \<lparr>sub = Some \<lparr>sid = 0, errAt = None\<rparr>, now = 10, calls = 1, selects = 0,
        trace = [(0, CallEthSubscribe)]\<rparr>
     = Exited \<lparr>sub = Some \<lparr>sid = 0, errAt = None\<rparr>, now = 50, calls = 1, selects = 1,
        trace = [(0, CallEthSubscribe), (50, RecvSigClose), (50, Unsubscribe 0),
          (50, LogNotice), (50, WgDone)]\<rparr>
   \<and> (\<exists>w'. loop \<lparr>sigCloseAt = Some 5, ethSubscribe = (\<lambda>_. Succeeds 10 (Some 10)),
           pick = (\<lambda>_. False)\<rparr> (Suc (Suc 0))
           \<lparr>sub = Some \<lparr>sid = 0, errAt = Some 10\<rparr>, now = 10, calls = 1, selects = 0,
            trace = [(0, CallEthSubscribe)]\<rparr> = Exited w'
         \<and> now w' = 10 \<and> calls w' = 1 \<and> occurrences WgDone (trace w') = 1)
   \<and> loop \<lparr>sigCloseAt = Some 5, ethSubscribe = (\<lambda>_. Succeeds 10 (Some 10)),
           pick = (\<lambda>_. False)\<rparr> (Suc (Suc 0))
           \<lparr>sub = Some \<lparr>sid = 0, errAt = Some 10\<rparr>, now = 10, calls = 1, selects = 0,
            trace = [(0, CallEthSubscribe)]\<rparr>
     = Exited \<lparr>sub = None, now = 10, calls = 1, selects = 2,
        trace = [(0, CallEthSubscribe), (10, RecvErr 0), (10, LogError),
          (10, NewTimer 30000000000), (10, RecvSigClose), (10, LogNotice), (10, WgDone)]\<rparr>"
proof -
  let ?e1 = "\<lparr>sigCloseAt = Some 5, ethSubscribe = (\<lambda>_. Fails 3 ''connection refused''),
       pick = (\<lambda>_. False)\<rparr>"
  let ?w1 = "\<lparr>sub = None, now = 10, calls = 1, selects = 0,
        trace = [(0, CallEthSubscribe), (10, LogCritical)]\<rparr>"
  let ?e2 = "\<lparr>sigCloseAt = Some 50, ethSubscribe = (\<lambda>_. Succeeds 10 None),
       pick = (\<lambda>_. False)\<rparr>"
  let ?s2 = "\<lparr>sid = 0, errAt = None\<rparr>"
  let ?w2 = "\<lparr>sub = Some ?s2, now = 10, calls = 1, selects = 0,
        trace = [(0, CallEthSubscribe)]\<rparr>"
  let ?e3 = "\<lparr>sigCloseAt = Some 5, ethSubscribe = (\<lambda>_. Succeeds 10 (Some 10)),
           pick = (\<lambda>_. False)\<rparr>"
  let ?w3 = "\<lparr>sub = Some \<lparr>sid = 0, errAt = Some 10\<rparr>, now = 10, calls = 1, selects = 0,
            trace = [(0, CallEthSubscribe)]\<rparr>"
  have 1: "iteration ?e1 ?w1 = Exited \<lparr>sub = None, now = 10, calls = 1, selects = 1,
        trace = [(0, CallEthSubscribe), (10, LogCritical), (10, NewTimer 30000000000),
          (10, RecvSigClose), (10, LogNotice), (10, WgDone)]\<rparr>"
    using shutdown_within_two_selects [of ?w1 ?e1 5]
    by (simp add: axisHeadsObserverSubscribeTick_def)
  have 2: "iteration ?e2 ?w2 = Exited \<lparr>sub = Some ?s2, now = 50, calls = 1, selects = 1,
        trace = [(0, CallEthSubscribe), (50, RecvSigClose), (50, Unsubscribe 0),
          (50, LogNotice), (50, WgDone)]\<rparr>"
    using shutdown_within_two_selects [of ?w2 ?e2 50 ?s2]
    by simp
  have 3: "\<exists>w'. loop ?e3 (Suc (Suc 0)) ?w3 = Exited w'
         \<and> now w' = 10 \<and> calls w' = 1 \<and> occurrences WgDone (trace w') = 1"
    using shutdown_within_two_selects [of ?w3 ?e3 5 _ 0]
    by (simp del: loop.simps)
  have 4: "loop ?e3 (Suc (Suc 0)) ?w3
     = Exited \<lparr>sub = None, now = 10, calls = 1, selects = 2,
        trace = [(0, CallEthSubscribe), (10, RecvErr 0), (10, LogError),
          (10, NewTimer 30000000000), (10, RecvSigClose), (10, LogNotice), (10, WgDone)]\<rparr>"
    using shutdown_within_two_selects [of ?w3 ?e3 5 "\<lparr>sid = 0, errAt = Some 10\<rparr>" 0 10]
    by (simp add: axisHeadsObserverSubscribeTick_def del: loop.simps)
  from 1 2 3 4 show ?thesis by blast
qed

end
